theory Spec2Isabelle
  imports Complex_Main "HOL-Library.Multiset"
begin

section \<open>Floorboards: the data model of the room planner\<close>

text \<open>
  The planner of \<^verbatim>\<open>class Room\<close> lays planks into columns of a rectilinear room.
  JavaScript numbers are modelled as exact rationals: every statement below is about
  the arithmetic the code writes down, not about its rounding. The \<^verbatim>\<open>cut_end\<close> of a
  plank is the string the code stores: \<^verbatim>\<open>""\<close> (whole), \<^verbatim>\<open>">"\<close> (cut at the top end)
  or \<^verbatim>\<open>"<"\<close> (cut at the bottom end).
\<close>

record hedge =
  hedge_left :: rat
  hedge_right :: rat
  hedge_y :: rat

record plank =
  plank_uid :: nat
  plank_id :: nat
  plank_cut_end :: string
  plank_left :: rat
  plank_top :: rat
  plank_width :: rat
  plank_length :: rat
  plank_permanent :: bool

record column =
  col_left :: rat
  col_width :: rat
  col_top :: rat
  col_bottom :: rat
  col_planks :: "plank list"

record vertex =
  vertex_x :: rat
  vertex_y :: rat

text \<open>
  The fields of a \<^verbatim>\<open>Room\<close>, together with the two static counters of
  \<^verbatim>\<open>class Plank\<close> (\<^verbatim>\<open>Plank.NEXT\<close>, \<^verbatim>\<open>Plank.UID\<close>), which the layout reads and
  advances.
\<close>

record room =
  START_LEFT :: rat
  START_TOP :: rat
  PLANK_WIDTH :: rat
  PLANK_LENGTH :: rat
  CUT_THICKNESS :: rat
  MIN_PLANK_LENGTH :: rat
  vertices :: "vertex list"
  hedges :: "hedge list"
  columns :: "column list"
  leftmost :: rat
  rightmost :: rat
  topmost :: rat
  bottommost :: rat
  partials :: "plank list"
  planksNeeded :: nat
  cuts :: nat
  Plank_NEXT :: nat
  Plank_UID :: nat

definition MAX_SAFE_INTEGER :: rat where
  "MAX_SAFE_INTEGER = 9007199254740991"

definition MIN_SAFE_INTEGER :: rat where
  "MIN_SAFE_INTEGER = - 9007199254740991"

subsection \<open>Plank and Column\<close>

text \<open>
  \<^verbatim>\<open>new Plank(attrs)\<close>: the uid is \<^verbatim>\<open>Plank.UID++\<close>, the id is \<^verbatim>\<open>attrs.id ?? Plank.NEXT++\<close>,
  the cut end defaults to the empty string and \<^verbatim>\<open>permanent\<close> to false. The result is
  the plank with the advanced counters \<open>(NEXT, UID)\<close>.
\<close>

definition new_Plank ::
  "rat \<Rightarrow> rat \<Rightarrow> rat \<Rightarrow> rat \<Rightarrow> nat option \<Rightarrow> string option \<Rightarrow> nat \<times> nat \<Rightarrow> plank \<times> nat \<times> nat" where
  "new_Plank l t w len ido ce cnt =
     (case cnt of (nxt, uid) \<Rightarrow>
        (\<lparr>plank_uid = uid,
          plank_id = (case ido of Some i \<Rightarrow> i | None \<Rightarrow> nxt),
          plank_cut_end = (case ce of Some c \<Rightarrow> c | None \<Rightarrow> ''''),
          plank_left = l, plank_top = t, plank_width = w, plank_length = len,
          plank_permanent = False\<rparr>,
         (case ido of Some i \<Rightarrow> nxt | None \<Rightarrow> Suc nxt),
         Suc uid))"

definition new_Column :: "rat \<Rightarrow> rat \<Rightarrow> column" where
  "new_Column l w =
     \<lparr>col_left = l, col_width = w, col_top = MAX_SAFE_INTEGER,
      col_bottom = MIN_SAFE_INTEGER, col_planks = []\<rparr>"

definition col_height :: "column \<Rightarrow> rat" where
  "col_height c = col_bottom c - col_top c"

definition col_right :: "column \<Rightarrow> rat" where
  "col_right c = col_left c + col_width c"

text \<open>\<^verbatim>\<open>Column.clip(hedge)\<close>, with the column as the state.\<close>

definition clip :: "hedge \<Rightarrow> column \<Rightarrow> column" where
  "clip e c =
     (if (hedge_left e \<le> col_left c \<and> hedge_right e > col_left c)
         \<or> (hedge_left e < col_right c \<and> hedge_right e \<ge> col_right c)
         \<or> (hedge_left e < col_left c \<and> hedge_right e > col_right c)
         \<or> (hedge_left e > col_left c \<and> hedge_right e < col_right c)
      then c\<lparr>col_bottom := max (hedge_y e) (col_bottom c),
              col_top := min (hedge_y e) (col_top c)\<rparr>
      else c)"

text \<open>\<^verbatim>\<open>Column.lineUpPlanks()\<close>.\<close>

definition lineUpPlanks :: "column \<Rightarrow> column" where
  "lineUpPlanks c = c\<lparr>col_planks := map (\<lambda>p. p\<lparr>plank_left := col_left c\<rparr>) (col_planks c)\<rparr>"

subsection \<open>Room.measure\<close>

text \<open>
  The loop of \<^verbatim>\<open>measure()\<close> over the vertex indices; \<open>vs\<close> is the whole vertex list,
  needed for \<^verbatim>\<open>vertices[(i + 1) % vertices.length]\<close>.
\<close>

fun measure_loop :: "vertex list \<Rightarrow> nat \<Rightarrow> nat \<Rightarrow> room \<Rightarrow> room" where
  "measure_loop vs i 0 r = r"
| "measure_loop vs i (Suc n) r =
     (let p1 = vs ! i;
          p2 = vs ! ((i + 1) mod length vs);
          r1 = r\<lparr>leftmost := min (leftmost r) (vertex_x p1),
                 rightmost := max (rightmost r) (vertex_x p1),
                 topmost := min (topmost r) (vertex_y p1),
                 bottommost := max (bottommost r) (vertex_y p1)\<rparr>;
          r2 = (if vertex_y p1 = vertex_y p2
                then r1\<lparr>hedges := hedges r1 @
                       [\<lparr>hedge_left = min (vertex_x p1) (vertex_x p2),
                         hedge_right = max (vertex_x p1) (vertex_x p2),
                         hedge_y = vertex_y p1\<rparr>]\<rparr>
                else r1)
      in measure_loop vs (Suc i) n r2)"

definition measure_room :: "room \<Rightarrow> room" where
  "measure_room r =
     measure_loop (vertices r) 0 (length (vertices r))
       (r\<lparr>hedges := [], leftmost := MAX_SAFE_INTEGER, rightmost := MIN_SAFE_INTEGER,
          topmost := MAX_SAFE_INTEGER, bottommost := MIN_SAFE_INTEGER\<rparr>)"

subsection \<open>Room.selectPartial\<close>

text \<open>
  The scan of \<^verbatim>\<open>selectPartial\<close>. The pair \<open>(best, bl)\<close> of the source is \<open>None\<close> while
  \<^verbatim>\<open>best < 0\<close>: the source's initial \<^verbatim>\<open>bl\<close> is never compared, because
  \<^verbatim>\<open>best < 0 ||\<close> short-circuits.
\<close>

fun selectPartial_scan ::
  "string \<Rightarrow> rat \<Rightarrow> plank list \<Rightarrow> nat \<Rightarrow> (nat \<times> rat) option \<Rightarrow> (nat \<times> rat) option" where
  "selectPartial_scan ce ml [] i b = b"
| "selectPartial_scan ce ml (p # ps) i b =
     selectPartial_scan ce ml ps (Suc i)
       (if plank_cut_end p = ce \<and> plank_length p > ml
        then (case b of
                None \<Rightarrow> Some (i, plank_length p)
              | Some (best, bl) \<Rightarrow>
                  if plank_length p > bl then Some (i, plank_length p) else b)
        else b)"

text \<open>
  \<^verbatim>\<open>selectPartial(cut_end, min_length)\<close> on the pool \<open>ps\<close> (\<^verbatim>\<open>this.partials\<close>): the value
  returned (\<open>None\<close> for \<^verbatim>\<open>undefined\<close>) and the pool afterwards;
  \<^verbatim>\<open>this.partials.splice(best, 1)[0]\<close> takes the plank at \<open>best\<close> out.
\<close>

definition selectPartial :: "string \<Rightarrow> rat \<Rightarrow> plank list \<Rightarrow> plank option \<times> plank list" where
  "selectPartial ce ml ps =
     (case selectPartial_scan ce ml ps 0 None of
        None \<Rightarrow> (None, ps)
      | Some (best, bl) \<Rightarrow> (Some (ps ! best), take best ps @ drop (Suc best) ps))"

text \<open>The planks \<^verbatim>\<open>selectPartial\<close> considers.\<close>

definition matches :: "string \<Rightarrow> rat \<Rightarrow> plank \<Rightarrow> bool" where
  "matches ce ml p \<longleftrightarrow> plank_cut_end p = ce \<and> plank_length p > ml"

subsection \<open>Room.waste and Room.collectPermanentPartials\<close>

definition waste :: "room \<Rightarrow> rat" where
  "waste r = of_nat (planksNeeded r) * PLANK_LENGTH r - sum_list (map col_height (columns r))"

fun renumber_from :: "nat \<Rightarrow> plank list \<Rightarrow> plank list \<times> nat" where
  "renumber_from n [] = ([], n)"
| "renumber_from n (p # ps) =
     (case renumber_from (Suc n) ps of (qs, m) \<Rightarrow> (p\<lparr>plank_id := n\<rparr> # qs, m))"

definition collectPermanentPartials :: "room \<Rightarrow> room" where
  "collectPermanentPartials r =
     (let nPartials = filter plank_permanent (partials r) @
                      concat (map (\<lambda>c. filter plank_permanent (col_planks c)) (columns r))
      in case renumber_from (Plank_NEXT r) nPartials of
           (ps, n) \<Rightarrow> r\<lparr>partials := ps, Plank_NEXT := n\<rparr>)"

subsection \<open>Room.recomputeFloor\<close>

text \<open>
  The locals of the column loop of \<^verbatim>\<open>recomputeFloor\<close> that live across iterations:
  the left edge \<^verbatim>\<open>l\<close>, \<^verbatim>\<open>first_offset\<close> and \<^verbatim>\<open>pickPartial\<close>. The list \<^verbatim>\<open>columns\<close>
  is the room's own \<^verbatim>\<open>this.columns\<close>.
\<close>

record locals =
  lv_l :: rat
  lv_first_offset :: rat
  lv_pickPartial :: bool

text \<open>The state of the inner loop that lays whole planks.\<close>

record fill =
  fs_planks :: "plank list"
  fs_y :: rat
  fs_fullPlanks :: nat
  fs_h :: rat
  fs_NEXT :: nat
  fs_UID :: nat

text \<open>The body of \<^verbatim>\<open>while (h > this.PLANK_LENGTH)\<close>: one whole plank is laid.\<close>

definition lay_plank :: "rat \<Rightarrow> rat \<Rightarrow> rat \<Rightarrow> fill \<Rightarrow> fill" where
  "lay_plank l W L s =
     (case new_Plank l (fs_y s) W L None None (fs_NEXT s, fs_UID s) of
        (p, nxt, uid) \<Rightarrow>
          s\<lparr>fs_planks := fs_planks s @ [p], fs_y := fs_y s + L,
            fs_fullPlanks := Suc (fs_fullPlanks s), fs_h := fs_h s - L,
            fs_NEXT := nxt, fs_UID := uid\<rparr>)"

text \<open>
  \<^verbatim>\<open>while (h > this.PLANK_LENGTH) { ... }\<close>. Nothing in the source bounds the number of
  rounds, so the loop is a partial function: \<open>None\<close> is "does not return".
\<close>

partial_function (option) lay_full :: "rat \<Rightarrow> rat \<Rightarrow> rat \<Rightarrow> fill \<Rightarrow> fill option" where
  "lay_full l W L s =
     (if fs_h s > L then lay_full l W L (lay_plank l W L s) else Some s)"

text \<open>
  The head of one iteration: the column is built and clipped, and, when
  \<^verbatim>\<open>pickPartial\<close> holds, a top-cut partial is taken from the pool and placed. The result
  is the clipped column, the placed partial (\<open>None\<close> for the source's undefined
  \<^verbatim>\<open>partial\<close>), the pool left, and the state the whole-plank loop starts from.
\<close>

definition start_column :: "room \<Rightarrow> locals \<Rightarrow> column \<times> plank option \<times> plank list \<times> fill" where
  "start_column r v =
     (let l = lv_l v;
          col = fold clip (hedges r) (new_Column l (PLANK_WIDTH r));
          y = col_top col + lv_first_offset v;
          h = col_height col - lv_first_offset v
      in case (if lv_pickPartial v then selectPartial ''>'' 0 (partials r)
               else (None, partials r)) of
           (None, pool) \<Rightarrow>
             (col, None, pool,
              \<lparr>fs_planks = [], fs_y = y, fs_fullPlanks = 0, fs_h = h,
               fs_NEXT = Plank_NEXT r, fs_UID = Plank_UID r\<rparr>)
         | (Some p, rest) \<Rightarrow>
             (let partial = p\<lparr>plank_left := l, plank_top := y\<rparr>
              in (col, Some partial, rest,
                  \<lparr>fs_planks = [partial], fs_y = y + plank_length p, fs_fullPlanks = 0,
                   fs_h = h - plank_length p,
                   fs_NEXT = Plank_NEXT r, fs_UID = Plank_UID r\<rparr>)))"

text \<open>
  The probe for a bottom-cut partial before a fresh cut: \<^verbatim>\<open>selectPartial("<")\<close> takes
  the plank out of the pool, and only the branch for a plank shorter than \<open>h\<close> pushes it
  back.
\<close>

definition probe_base :: "bool \<Rightarrow> rat \<Rightarrow> plank list \<Rightarrow> plank list" where
  "probe_base pick h pool =
     (if pick
      then (case selectPartial ''<'' 0 pool of
              (None, pool') \<Rightarrow> pool'
            | (Some base_partial, rest) \<Rightarrow>
                if plank_length base_partial \<ge> h then rest else rest @ [base_partial])
      else pool)"

text \<open>
  The fresh cut at the bottom of a column (\<^verbatim>\<open>if (h > 0) { ... }\<close>): the room with the
  counters, the pool and the counters of \<^verbatim>\<open>Plank\<close> updated, and the planks of the column.
\<close>

definition cut_plank :: "room \<Rightarrow> locals \<Rightarrow> plank list \<Rightarrow> fill \<Rightarrow> room \<times> plank list" where
  "cut_plank r v pool s =
     (let l = lv_l v; h = fs_h s;
          pool1 = probe_base (lv_pickPartial v) h pool
      in case new_Plank l (fs_y s) (PLANK_WIDTH r) h None (Some ''<'') (fs_NEXT s, fs_UID s) of
           (cp, cnt) \<Rightarrow>
             (let y = fs_y s + h;
                  over = PLANK_LENGTH r - h - CUT_THICKNESS r;
                  r1 = r\<lparr>planksNeeded := Suc (planksNeeded r), cuts := Suc (cuts r)\<rparr>
              in if over > MIN_PLANK_LENGTH r
                 then (case new_Plank l y (PLANK_WIDTH r) over (Some (plank_id cp)) (Some ''>'') cnt of
                         (partial, nxt, uid) \<Rightarrow>
                           (r1\<lparr>partials := pool1 @ [partial], Plank_NEXT := nxt, Plank_UID := uid\<rparr>,
                            fs_planks s @ [cp]))
                 else (r1\<lparr>partials := pool1, Plank_NEXT := fst cnt, Plank_UID := snd cnt\<rparr>,
                       fs_planks s @ [cp])))"

text \<open>
  The rest of the iteration, after the whole planks: the retry branch
  (\<^verbatim>\<open>columns.pop(); pickPartial = false; continue\<close>) or the completion of the column.
\<close>

definition finish_column ::
  "room \<Rightarrow> locals \<Rightarrow> column \<Rightarrow> plank option \<Rightarrow> plank list \<Rightarrow> fill \<Rightarrow> room \<times> locals" where
  "finish_column r v col partial pool s =
     (if fs_h s > 0 \<and> fs_h s < MIN_PLANK_LENGTH r \<and> partial \<noteq> None
      then (r\<lparr>partials := pool @ [the partial],
              Plank_NEXT := fs_NEXT s, Plank_UID := fs_UID s\<rparr>,
            v\<lparr>lv_first_offset := 0, lv_pickPartial := False\<rparr>)
      else
        (let r1 = r\<lparr>planksNeeded := planksNeeded r + fs_fullPlanks s\<rparr>;
             (r2, planks) =
               (if fs_h s > 0 then cut_plank r1 v pool s
                else (r1\<lparr>partials := pool, Plank_NEXT := fs_NEXT s, Plank_UID := fs_UID s\<rparr>,
                      fs_planks s))
         in (r2\<lparr>columns := columns r @ [col\<lparr>col_planks := planks\<rparr>]\<rparr>,
             v\<lparr>lv_l := lv_l v + PLANK_WIDTH r, lv_first_offset := 0, lv_pickPartial := True\<rparr>)))"

text \<open>One iteration of \<^verbatim>\<open>while (l < this.rightmost)\<close>.\<close>

definition column_attempt :: "room \<Rightarrow> locals \<Rightarrow> (room \<times> locals) option" where
  "column_attempt r v =
     (case start_column r v of
        (col, partial, pool, s0) \<Rightarrow>
          (case lay_full (lv_l v) (PLANK_WIDTH r) (PLANK_LENGTH r) s0 of
             None \<Rightarrow> None
           | Some s \<Rightarrow> Some (finish_column r v col partial pool s)))"

partial_function (option) floor_loop :: "room \<Rightarrow> locals \<Rightarrow> room option" where
  "floor_loop r v =
     (if lv_l v < rightmost r
      then Option.bind (column_attempt r v) (\<lambda>(r', v'). floor_loop r' v')
      else Some r)"

text \<open>
  The statements of \<^verbatim>\<open>recomputeFloor\<close> before the column loop: the plank ids restart at
  1, the permanent planks are collected, the counters and the column list are cleared,
  and the locals of the loop are initialised.
\<close>

definition recompute_init :: "room \<Rightarrow> room \<times> locals" where
  "recompute_init r =
     (let r0 = collectPermanentPartials (r\<lparr>Plank_NEXT := 1\<rparr>);
          r1 = r0\<lparr>columns := [], planksNeeded := 0, cuts := 0\<rparr>
      in (r1, \<lparr>lv_l = leftmost r1 + START_LEFT r1, lv_first_offset = START_TOP r1,
               lv_pickPartial = True\<rparr>))"

definition recomputeFloor :: "room \<Rightarrow> room option" where
  "recomputeFloor r = (case recompute_init r of (r1, v) \<Rightarrow> floor_loop r1 v)"



declare lay_full.simps [code]
declare floor_loop.simps [code]

subsection \<open>The rooms used as concrete inputs\<close>

text \<open>
  A rectangular room given by its four corners, clockwise from the top left, with the
  default \<^verbatim>\<open>START_LEFT\<close> and \<^verbatim>\<open>START_TOP\<close>, no columns and an empty pool: the
  state of a \<^verbatim>\<open>Room\<close> before \<^verbatim>\<open>measure()\<close> and \<^verbatim>\<open>recomputeFloor()\<close> run.
\<close>

definition rect_room :: "rat \<Rightarrow> rat \<Rightarrow> rat \<Rightarrow> rat \<Rightarrow> rat \<Rightarrow> rat \<Rightarrow> room" where
  "rect_room w h W L kerf minlen =
     \<lparr>START_LEFT = 0, START_TOP = 0, PLANK_WIDTH = W, PLANK_LENGTH = L,
      CUT_THICKNESS = kerf, MIN_PLANK_LENGTH = minlen,
      vertices = [\<lparr>vertex_x = 0, vertex_y = 0\<rparr>, \<lparr>vertex_x = w, vertex_y = 0\<rparr>,
                  \<lparr>vertex_x = w, vertex_y = h\<rparr>, \<lparr>vertex_x = 0, vertex_y = h\<rparr>],
      hedges = [], columns = [],
      leftmost = MAX_SAFE_INTEGER, rightmost = MIN_SAFE_INTEGER,
      topmost = MAX_SAFE_INTEGER, bottommost = MIN_SAFE_INTEGER,
      partials = [], planksNeeded = 0, cuts = 0, Plank_NEXT = 1, Plank_UID = 0\<rparr>"

text \<open>The 100 by 100 square with planks 10 wide and 60 long, no kerf, minimum 20.\<close>

definition square_room :: room where
  "square_room = rect_room 100 100 10 60 0 20"

text \<open>A plank as the dialog for pre-cut planks creates it (\<^verbatim>\<open>permanent: true\<close>).\<close>

definition user_plank :: "nat \<Rightarrow> string \<Rightarrow> rat \<Rightarrow> rat \<Rightarrow> plank" where
  "user_plank u ce w len =
     \<lparr>plank_uid = u, plank_id = Suc u, plank_cut_end = ce, plank_left = 0, plank_top = 0,
      plank_width = w, plank_length = len, plank_permanent = True\<rparr>"


text \<open>
  The uids of the planks a room holds, in the pool and in the columns. Every plank gets
  its uid from \<^verbatim>\<open>Plank.UID++\<close>, so in a room the code has built the uids are distinct
  and below the counter.
\<close>

definition room_uids :: "room \<Rightarrow> nat list" where
  "room_uids r =
     map plank_uid (partials r) @ concat (map (map plank_uid \<circ> col_planks) (columns r))"

definition uids_wf :: "room \<Rightarrow> bool" where
  "uids_wf r \<longleftrightarrow> distinct (room_uids r) \<and> list_all (\<lambda>u. u < Plank_UID r) (room_uids r)"


subsection \<open>Room.shuffle\<close>

text \<open>
  The bins of \<^verbatim>\<open>shuffle()\<close>: the object \<^verbatim>\<open>bins\<close> is a list of entries (key, bin) in the
  order the keys were created, and a bin lists the indices in \<^verbatim>\<open>this.columns\<close> of the
  column objects pushed to it, since the bins alias the columns of the room.
\<close>

fun bin_push :: "rat \<Rightarrow> nat \<Rightarrow> (rat \<times> nat list) list \<Rightarrow> (rat \<times> nat list) list" where
  "bin_push h i [] = [(h, [i])]"
| "bin_push h i ((k, b) # bins) =
     (if k = h then (k, b @ [i]) # bins else (k, b) # bin_push h i bins)"

definition collect_bins :: "room \<Rightarrow> (rat \<times> nat list) list" where
  "collect_bins r =
     fold (\<lambda>i bins. if START_TOP r \<noteq> 0 \<and> i = 0 then bins
                      else bin_push (col_height (columns r ! i)) i bins)
       [0..<length (columns r)] []"

text \<open>
  \<^verbatim>\<open>Object.keys(bins)\<close> lists the keys that are array indices (the integers from 0 to
  \<open>2\<^sup>3\<^sup>2 - 2\<close>) first, in ascending order, and then the other keys in the order of their
  creation; \<open>keys_order\<close> lists the entries in that order.
\<close>

definition is_array_index :: "rat \<Rightarrow> bool" where
  "is_array_index h \<longleftrightarrow> of_int \<lfloor>h\<rfloor> = h \<and> 0 \<le> h \<and> h < 4294967295"

definition keys_order :: "(rat \<times> nat list) list \<Rightarrow> (rat \<times> nat list) list" where
  "keys_order bins =
     sort_key fst (filter (\<lambda>e. is_array_index (fst e)) bins)
     @ filter (\<lambda>e. \<not> is_array_index (fst e)) bins"

text \<open>
  The values of \<^verbatim>\<open>Math.random()\<close> are taken from a list of draws. The loop
  \<^verbatim>\<open>while (to == from) to = Math.floor(Math.random() * bin.length)\<close> consumes draws
  until one gives another index; \<open>None\<close> when the draws run out before that.
\<close>

fun pick_to :: "nat \<Rightarrow> nat \<Rightarrow> rat list \<Rightarrow> (int \<times> rat list) option" where
  "pick_to n from [] = None"
| "pick_to n from (x # xs) =
     (let to = \<lfloor>x * of_nat n\<rfloor>
      in if to = int from then pick_to n from xs else Some (to, xs))"

text \<open>
  The exchange of the \<^verbatim>\<open>left\<close> of the columns at the indices \<open>f\<close> and \<open>t\<close>, statement by
  statement, followed by \<^verbatim>\<open>lineUpPlanks()\<close> on both.
\<close>

definition swap_left :: "nat \<Rightarrow> nat \<Rightarrow> column list \<Rightarrow> column list" where
  "swap_left f t cols =
     (let tmp = col_left (cols ! f);
          cols1 = cols[f := (cols ! f)\<lparr>col_left := col_left (cols ! t)\<rparr>];
          cols2 = cols1[t := (cols1 ! t)\<lparr>col_left := tmp\<rparr>];
          cols3 = cols2[f := lineUpPlanks (cols2 ! f)]
      in cols3[t := lineUpPlanks (cols3 ! t)])"

text \<open>
  The rounds \<^verbatim>\<open>for (let i = 0; i < 2 * bin.length; i++)\<close> on one bin, over the list of the
  values of \<open>i\<close>. A draw outside the bin would make \<^verbatim>\<open>bin[to]\<close> undefined and the access
  to its \<^verbatim>\<open>left\<close> throw: that is \<open>None\<close> too.
\<close>

fun swap_rounds ::
  "nat list \<Rightarrow> nat list \<Rightarrow> column list \<Rightarrow> rat list \<Rightarrow> (column list \<times> rat list) option" where
  "swap_rounds bin [] cols ds = Some (cols, ds)"
| "swap_rounds bin (i # rounds) cols ds =
     (let from = i mod length bin
      in case pick_to (length bin) from ds of
           None \<Rightarrow> None
         | Some (to, ds') \<Rightarrow>
             if 0 \<le> to \<and> to < int (length bin)
             then swap_rounds bin rounds (swap_left (bin ! from) (bin ! nat to) cols) ds'
             else None)"

fun shuffle_bins ::
  "(rat \<times> nat list) list \<Rightarrow> column list \<Rightarrow> rat list \<Rightarrow> (column list \<times> rat list) option" where
  "shuffle_bins [] cols ds = Some (cols, ds)"
| "shuffle_bins ((k, bin) # bins) cols ds =
     (if length bin > 1
      then (case swap_rounds bin [0..<2 * length bin] cols ds of
              None \<Rightarrow> None
            | Some (cols', ds') \<Rightarrow> shuffle_bins bins cols' ds')
      else shuffle_bins bins cols ds)"

text \<open>
  The columns after the random exchanges and \<^verbatim>\<open>this.columns.sort(...)\<close> by \<^verbatim>\<open>left\<close>
  (a stable sort), before the planks are renumbered.
\<close>

definition shuffle_order :: "rat list \<Rightarrow> room \<Rightarrow> (column list \<times> rat list) option" where
  "shuffle_order ds r =
     (case shuffle_bins (keys_order (collect_bins r)) (columns r) ds of
        None \<Rightarrow> None
      | Some (cols, ds') \<Rightarrow> Some (sort_key col_left cols, ds'))"

text \<open>
  The renumbering of the planks of one column and of all columns; the state is the
  object \<^verbatim>\<open>remap\<close> (old id to new id) and \<^verbatim>\<open>newId\<close>.
\<close>

fun renumber_planks ::
  "plank list \<Rightarrow> (nat \<rightharpoonup> nat) \<times> nat \<Rightarrow> plank list \<times> (nat \<rightharpoonup> nat) \<times> nat" where
  "renumber_planks [] st = ([], st)"
| "renumber_planks (p # ps) (remap, newId) =
     (case remap (plank_id p) of
        None \<Rightarrow>
          (case renumber_planks ps (remap(plank_id p \<mapsto> newId), Suc newId) of
             (ps', st') \<Rightarrow> (p\<lparr>plank_id := newId\<rparr> # ps', st'))
      | Some n \<Rightarrow>
          (case renumber_planks ps (remap, newId) of
             (ps', st') \<Rightarrow> (p\<lparr>plank_id := n\<rparr> # ps', st')))"

fun renumber_columns :: "column list \<Rightarrow> (nat \<rightharpoonup> nat) \<times> nat \<Rightarrow> column list" where
  "renumber_columns [] st = []"
| "renumber_columns (c # cs) st =
     (case renumber_planks (col_planks c) st of
        (ps, st') \<Rightarrow> c\<lparr>col_planks := ps\<rparr> # renumber_columns cs st')"

definition shuffle :: "rat list \<Rightarrow> room \<Rightarrow> (room \<times> rat list) option" where
  "shuffle ds r =
     (case shuffle_order ds r of
        None \<Rightarrow> None
      | Some (cols, ds') \<Rightarrow>
          Some (r\<lparr>columns := renumber_columns cols (Map.empty, 1)\<rparr>, ds'))"

text \<open>The quantities that the claims about \<^verbatim>\<open>shuffle\<close> speak of.\<close>

definition plank_count :: "column list \<Rightarrow> nat" where
  "plank_count cs = sum_list (map (length \<circ> col_planks) cs)"

definition column_ids :: "column list \<Rightarrow> nat list" where
  "column_ids cs = concat (map (map plank_id \<circ> col_planks) cs)"

text \<open>
  A list of ids is numbered in the order of first encounter from the level \<open>k\<close> when each
  id is either the next unused number or one of the numbers already used; the result is
  the number of ids used at the end.
\<close>

fun encounter_level :: "nat \<Rightarrow> nat list \<Rightarrow> nat option" where
  "encounter_level k [] = Some k"
| "encounter_level k (x # xs) =
     (if x = Suc k then encounter_level (Suc k) xs
      else if 1 \<le> x \<and> x \<le> k then encounter_level k xs
      else None)"

text \<open>
  The invariant of the renumbering: \<^verbatim>\<open>remap\<close> is injective on the ids it knows and its
  values are exactly the numbers below \<^verbatim>\<open>newId\<close>, from 1.
\<close>

definition remap_inv :: "(nat \<rightharpoonup> nat) \<Rightarrow> nat \<Rightarrow> bool" where
  "remap_inv m n \<longleftrightarrow> inj_on m (dom m) \<and> ran m = {1..<n} \<and> 1 \<le> n"

text \<open>
  The layout of a room 30 wide and 100 high (three columns of height 100), with a kerf
  of 1/2 and a minimum of 15.
\<close>

definition three_columns :: room where
  "three_columns = the (recomputeFloor (measure_room (rect_room 30 100 10 60 (1/2) 15)))"

subsection \<open>The material of a layout\<close>

text \<open>
  Measures of a layout, used to state what \<^verbatim>\<open>waste()\<close> accounts for: the planks laid in
  the columns, the total length of a list of planks, the offcut \<open>over\<close> of a plank cut at
  the bottom of a column (\<^verbatim>\<open>PLANK_LENGTH - h - CUT_THICKNESS\<close>, as the fresh cut computes
  it), the offcuts that were not banked (the test \<^verbatim>\<open>over > MIN_PLANK_LENGTH\<close> failed), and
  the number of planks cut at the bottom.
\<close>

definition all_planks :: "room \<Rightarrow> plank list" where
  "all_planks r = concat (map col_planks (columns r))"

definition pool_length :: "plank list \<Rightarrow> rat" where
  "pool_length ps = sum_list (map plank_length ps)"

definition laid_length :: "room \<Rightarrow> rat" where
  "laid_length r = pool_length (all_planks r)"

definition offcut :: "room \<Rightarrow> plank \<Rightarrow> rat" where
  "offcut r p = PLANK_LENGTH r - plank_length p - CUT_THICKNESS r"

definition is_discarded :: "room \<Rightarrow> plank \<Rightarrow> bool" where
  "is_discarded r p \<longleftrightarrow> plank_cut_end p = ''<'' \<and> \<not> offcut r p > MIN_PLANK_LENGTH r"

definition discarded :: "room \<Rightarrow> rat" where
  "discarded r = sum_list (map (offcut r) (filter (is_discarded r) (all_planks r)))"

definition bottom_cuts :: "room \<Rightarrow> nat" where
  "bottom_cuts r = length (filter (\<lambda>p. plank_cut_end p = ''<'') (all_planks r))"

text \<open>
  A room 10 wide and 80 high, planks 60 long, no kerf, minimum 30, with one pre-cut plank
  of length 50, cut at its top end, in the pool.
\<close>

definition pool_room :: room where
  "pool_room = (rect_room 10 80 10 60 0 30)
     \<lparr>partials := [user_plank 0 ''>'' 10 50], Plank_UID := 1\<rparr>"

section \<open>Selection from the pool\<close>

lemma scan_None:
  "selectPartial_scan ce ml ps i b = None \<longleftrightarrow> b = None \<and> (\<forall>p \<in> set ps. \<not> matches ce ml p)"
  by (induction ps arbitrary: i b) (auto simp: matches_def split: option.splits)

lemma scan_Some:
  "selectPartial_scan ce ml ps i b = Some (k, m) \<Longrightarrow>
     (b = Some (k, m) \<and> (\<forall>p \<in> set ps. matches ce ml p \<longrightarrow> plank_length p \<le> m))
   \<or> (i \<le> k \<and> k < i + length ps \<and> matches ce ml (ps ! (k - i))
      \<and> plank_length (ps ! (k - i)) = m
      \<and> (\<forall>j < k - i. matches ce ml (ps ! j) \<longrightarrow> plank_length (ps ! j) < m)
      \<and> (\<forall>j < length ps. matches ce ml (ps ! j) \<longrightarrow> plank_length (ps ! j) \<le> m)
      \<and> (\<forall>k0 m0. b = Some (k0, m0) \<longrightarrow> m0 < m))"
proof (induction ps arbitrary: i b)
  case Nil
  then show ?case by simp
next
  case (Cons p ps)
  let ?b = "(if plank_cut_end p = ce \<and> plank_length p > ml
        then (case b of
                None \<Rightarrow> Some (i, plank_length p)
              | Some (best, bl) \<Rightarrow>
                  if plank_length p > bl then Some (i, plank_length p) else b)
        else b)"
  from Cons.prems have run: "selectPartial_scan ce ml ps (Suc i) ?b = Some (k, m)" by simp
  from Cons.IH [OF run] show ?case
    apply (elim disjE conjE)
    subgoal
      by (cases b) (auto simp: matches_def nth_Cons' split: if_splits)
    subgoal
      apply (rule disjI2)
      apply (cases b)
       apply (auto simp: matches_def nth_Cons' less_Suc_eq_0_disj split: if_splits)
      done
    done
qed

lemma selectPartial_None:
  "fst (selectPartial ce ml pool) = None \<longleftrightarrow> (\<forall>p \<in> set pool. \<not> matches ce ml p)"
  using scan_None [of ce ml pool 0 None]
  by (auto simp: selectPartial_def split: option.splits)

lemma selectPartial_None_pool:
  "selectPartial ce ml pool = (None, pool') \<Longrightarrow> pool' = pool"
  by (auto simp: selectPartial_def split: option.splits)

lemma selectPartial_Some:
  assumes "selectPartial ce ml pool = (Some p, pool')"
  shows "\<exists>i < length pool. p = pool ! i \<and> pool' = take i pool @ drop (Suc i) pool
           \<and> matches ce ml p
           \<and> (\<forall>j < length pool. matches ce ml (pool ! j) \<longrightarrow> plank_length (pool ! j) \<le> plank_length p)
           \<and> (\<forall>j < i. matches ce ml (pool ! j) \<longrightarrow> plank_length (pool ! j) < plank_length p)"
proof -
  from assms obtain k m where
    run: "selectPartial_scan ce ml pool 0 None = Some (k, m)"
    and p: "p = pool ! k" and pool': "pool' = take k pool @ drop (Suc k) pool"
    by (auto simp: selectPartial_def split: option.splits)
  from scan_Some [OF run] p pool' show ?thesis by auto
qed

text \<open>
  C5. \<^verbatim>\<open>selectPartial(cutEnd, minLength)\<close> on any pool: when no plank of the pool has the
  cut end and a length strictly above \<open>minLength\<close>, it returns nothing and leaves the pool
  as it is. Otherwise it returns the plank at some index \<open>i\<close> of the pool and the pool
  loses exactly that entry; the plank matches, no matching plank of the pool is longer,
  and every matching plank before \<open>i\<close> is strictly shorter (the first of the longest
  wins).
\<close>

theorem selectPartial_longest_first:
  "(case selectPartial ce ml pool of
      (None, pool') \<Rightarrow> pool' = pool \<and> (\<forall>p \<in> set pool. \<not> matches ce ml p)
    | (Some p, pool') \<Rightarrow>
        (\<exists>i < length pool. p = pool ! i \<and> pool' = take i pool @ drop (Suc i) pool
           \<and> matches ce ml p
           \<and> (\<forall>j < length pool. matches ce ml (pool ! j)
                  \<longrightarrow> plank_length (pool ! j) \<le> plank_length p)
           \<and> (\<forall>j < i. matches ce ml (pool ! j)
                  \<longrightarrow> plank_length (pool ! j) < plank_length p)))"
proof (cases "selectPartial ce ml pool")
  case (Pair res pool')
  show ?thesis
  proof (cases res)
    case None
    with Pair have "fst (selectPartial ce ml pool) = None" by simp
    then have "\<forall>p \<in> set pool. \<not> matches ce ml p" by (simp only: selectPartial_None)
    moreover from Pair None have "pool' = pool"
      by (simp add: selectPartial_None_pool)
    ultimately show ?thesis using Pair None by simp
  next
    case (Some p)
    with Pair selectPartial_Some [of ce ml pool p pool'] show ?thesis by simp
  qed
qed

text \<open>
  A pool with two top-cut planks of the greatest length 30 (uids 1 and 2), a shorter one
  and a bottom-cut one: the first of the two longest is returned, the rest stay in order.
  With the floor 30 no plank is long enough.
\<close>

theorem selectPartial_longest_first_witness:
  "selectPartial ''>'' 0
     [user_plank 0 ''>'' 10 20, user_plank 1 ''>'' 10 30, user_plank 2 ''>'' 10 30,
      user_plank 3 ''<'' 10 50]
   = (Some (user_plank 1 ''>'' 10 30),
      [user_plank 0 ''>'' 10 20, user_plank 2 ''>'' 10 30, user_plank 3 ''<'' 10 50])
   \<and> selectPartial ''>'' 30 [user_plank 0 ''>'' 10 20, user_plank 1 ''>'' 10 30]
   = (None, [user_plank 0 ''>'' 10 20, user_plank 1 ''>'' 10 30])"
proof -
  let ?pool = "[user_plank 0 ''>'' 10 20, user_plank 1 ''>'' 10 30, user_plank 2 ''>'' 10 30,
      user_plank 3 ''<'' 10 50]"
  have a: "selectPartial ''>'' 0 ?pool
     = (Some (user_plank 1 ''>'' 10 30),
        [user_plank 0 ''>'' 10 20, user_plank 2 ''>'' 10 30, user_plank 3 ''<'' 10 50])"
    by code_simp
  have b: "selectPartial ''>'' 30 [user_plank 0 ''>'' 10 20, user_plank 1 ''>'' 10 30]
     = (None, [user_plank 0 ''>'' 10 20, user_plank 1 ''>'' 10 30])"
    by code_simp
  from selectPartial_longest_first [where ce = "''>''" and ml = 0 and pool = ?pool] a b
  show ?thesis by simp
qed

section \<open>The square room\<close>

text \<open>
  C4, as the code computes it. For the 100 by 100 square room with
  \<^verbatim>\<open>PLANK_WIDTH = 10\<close>, \<^verbatim>\<open>PLANK_LENGTH = 60\<close>, \<^verbatim>\<open>CUT_THICKNESS = 0\<close>,
  \<^verbatim>\<open>MIN_PLANK_LENGTH = 20\<close>, \<^verbatim>\<open>START_LEFT = 0\<close> and an empty pool, the layout has
  exactly 10 columns, each of height 100, each holding a whole plank of length 60 and a
  plank of length 40 cut at its bottom end; 20 planks are needed and 10 cuts are made.
  Every leftover is exactly 20, which is not above the minimum and so is never banked:
  the pool stays empty and the waste is \<open>20 \<times> 60 - 10 \<times> 100 = 200\<close>.
\<close>

theorem square_room_layout:
  "map_option (\<lambda>r. (length (columns r), map col_height (columns r),
       map (map plank_length \<circ> col_planks) (columns r),
       map (map plank_cut_end \<circ> col_planks) (columns r),
       planksNeeded r, cuts r, waste r, partials r))
     (recomputeFloor (measure_room square_room))
   = Some (10, replicate 10 100, replicate 10 [60, 40], replicate 10 ['''', ''<''],
           20, 10, 200, [])"
  by code_simp

text \<open>The waste of that layout is not 0.\<close>

theorem square_room_waste_counterexample:
  "recomputeFloor (measure_room square_room) \<noteq> None
   \<and> map_option waste (recomputeFloor (measure_room square_room)) \<noteq> Some 0"
  by code_simp

section \<open>Termination of the loops\<close>



lemma lay_plank_simps [simp]:
  "fs_h (lay_plank l W L s) = fs_h s - L"
  "fs_y (lay_plank l W L s) = fs_y s + L"
  "fs_fullPlanks (lay_plank l W L s) = Suc (fs_fullPlanks s)"
  "fs_NEXT (lay_plank l W L s) = Suc (fs_NEXT s)"
  "fs_UID (lay_plank l W L s) = Suc (fs_UID s)"
  "fs_planks (lay_plank l W L s) = fs_planks s @
     [\<lparr>plank_uid = fs_UID s, plank_id = fs_NEXT s, plank_cut_end = '''',
       plank_left = l, plank_top = fs_y s, plank_width = W, plank_length = L,
       plank_permanent = False\<rparr>]"
  by (simp_all add: lay_plank_def new_Plank_def)




lemma cut_plank_frame:
  "cut_plank r v pool s = (r', planks) \<Longrightarrow>
     rightmost r' = rightmost r \<and> PLANK_WIDTH r' = PLANK_WIDTH r \<and> PLANK_LENGTH r' = PLANK_LENGTH r
     \<and> columns r' = columns r \<and> hedges r' = hedges r \<and> MIN_PLANK_LENGTH r' = MIN_PLANK_LENGTH r
     \<and> CUT_THICKNESS r' = CUT_THICKNESS r"
  by (auto simp: cut_plank_def Let_def split: if_splits prod.splits)

lemma finish_column_frame:
  "finish_column r v col partial pool s = (r', v') \<Longrightarrow>
     rightmost r' = rightmost r \<and> PLANK_WIDTH r' = PLANK_WIDTH r \<and> PLANK_LENGTH r' = PLANK_LENGTH r
     \<and> hedges r' = hedges r \<and> MIN_PLANK_LENGTH r' = MIN_PLANK_LENGTH r
     \<and> CUT_THICKNESS r' = CUT_THICKNESS r"
  by (auto simp: finish_column_def Let_def split: if_splits prod.splits dest: cut_plank_frame)


lemma column_attempt_Some:
  "column_attempt r v = Some (r', v') \<longleftrightarrow>
     (\<exists>col partial pool s0 s. start_column r v = (col, partial, pool, s0)
        \<and> lay_full (lv_l v) (PLANK_WIDTH r) (PLANK_LENGTH r) s0 = Some s
        \<and> finish_column r v col partial pool s = (r', v'))"
  by (auto simp: column_attempt_def split: prod.splits option.splits)

lemma column_attempt_frame:
  "column_attempt r v = Some (r', v') \<Longrightarrow>
     rightmost r' = rightmost r \<and> PLANK_WIDTH r' = PLANK_WIDTH r \<and> PLANK_LENGTH r' = PLANK_LENGTH r
     \<and> hedges r' = hedges r \<and> MIN_PLANK_LENGTH r' = MIN_PLANK_LENGTH r
     \<and> CUT_THICKNESS r' = CUT_THICKNESS r"
  unfolding column_attempt_Some by (blast dest: finish_column_frame)








lemma recompute_init_frame:
  "recompute_init r = (r1, v) \<Longrightarrow>
     PLANK_WIDTH r1 = PLANK_WIDTH r \<and> PLANK_LENGTH r1 = PLANK_LENGTH r
     \<and> rightmost r1 = rightmost r \<and> columns r1 = [] \<and> planksNeeded r1 = 0 \<and> cuts r1 = 0
     \<and> lv_l v = leftmost r + START_LEFT r \<and> lv_pickPartial v"
  by (auto simp: recompute_init_def collectPermanentPartials_def Let_def split: prod.splits)








section \<open>Rooms without columns\<close>







section \<open>A column of exactly two plank lengths\<close>

text \<open>
  C6 at a concrete room: one column 10 wide and 120 high, planks 60 long, an empty pool.
  The height is twice the plank length. The loop for whole planks stops at \<open>h = 60\<close>
  (its test is \<^verbatim>\<open>h > PLANK_LENGTH\<close>), so the second plank is made by the branch for a
  fresh cut: one cut is counted and the plank, of the whole length 60, is marked as cut
  at its bottom end. Two planks are needed and the waste is 0.
\<close>

theorem exact_multiple_column_cut:
  "map_option (\<lambda>r. (map col_height (columns r),
        map (map plank_length \<circ> col_planks) (columns r),
        map (map plank_cut_end \<circ> col_planks) (columns r),
        planksNeeded r, cuts r, waste r))
     (recomputeFloor (measure_room (rect_room 10 120 10 60 0 20)))
   = Some ([120], [[60, 60]], [['''', ''<'']], 2, 1, 0)"
  by code_simp

section \<open>The fresh cut at the bottom of a column\<close>

lemma column_attempt_eq:
  assumes "start_column r v = (col, partial, pool, s0)"
    and "lay_full (lv_l v) (PLANK_WIDTH r) (PLANK_LENGTH r) s0 = Some s"
  shows "column_attempt r v = Some (finish_column r v col partial pool s)"
  using assms by (simp add: column_attempt_def)

lemma cut_plank_banked:
  assumes "MIN_PLANK_LENGTH r < PLANK_LENGTH r - fs_h s - CUT_THICKNESS r"
  shows "\<exists>r' cp p. cut_plank r v pool s = (r', fs_planks s @ [cp])
     \<and> plank_length cp = fs_h s \<and> plank_cut_end cp = ''<''
     \<and> plank_uid cp = fs_UID s \<and> plank_id cp = fs_NEXT s
     \<and> plank_left cp = lv_l v \<and> plank_top cp = fs_y s
     \<and> partials r' = probe_base (lv_pickPartial v) (fs_h s) pool @ [p]
     \<and> plank_cut_end p = ''>'' \<and> plank_id p = plank_id cp
     \<and> plank_uid p = Suc (fs_UID s)
     \<and> plank_length p = PLANK_LENGTH r - fs_h s - CUT_THICKNESS r
     \<and> columns r' = columns r \<and> planksNeeded r' = Suc (planksNeeded r)
     \<and> cuts r' = Suc (cuts r) \<and> Plank_UID r' = Suc (Suc (fs_UID s))"
  using assms by (simp add: cut_plank_def new_Plank_def Let_def)

lemma cut_plank_wasted:
  assumes "\<not> MIN_PLANK_LENGTH r < PLANK_LENGTH r - fs_h s - CUT_THICKNESS r"
  shows "\<exists>r' cp. cut_plank r v pool s = (r', fs_planks s @ [cp])
     \<and> plank_length cp = fs_h s \<and> plank_cut_end cp = ''<''
     \<and> plank_uid cp = fs_UID s \<and> plank_id cp = fs_NEXT s
     \<and> plank_left cp = lv_l v \<and> plank_top cp = fs_y s
     \<and> partials r' = probe_base (lv_pickPartial v) (fs_h s) pool
     \<and> columns r' = columns r \<and> planksNeeded r' = Suc (planksNeeded r)
     \<and> cuts r' = Suc (cuts r) \<and> Plank_UID r' = Suc (fs_UID s)"
  using assms by (simp add: cut_plank_def new_Plank_def Let_def)

lemma finish_column_cut:
  assumes "0 < fs_h s" and "\<not> (fs_h s < MIN_PLANK_LENGTH r \<and> partial \<noteq> None)"
    and "cut_plank (r\<lparr>planksNeeded := planksNeeded r + fs_fullPlanks s\<rparr>) v pool s = (r2, planks)"
  shows "finish_column r v col partial pool s =
     (r2\<lparr>columns := columns r @ [col\<lparr>col_planks := planks\<rparr>]\<rparr>,
      v\<lparr>lv_l := lv_l v + PLANK_WIDTH r, lv_first_offset := 0, lv_pickPartial := True\<rparr>)"
  using assms by (auto simp: finish_column_def Let_def)



section \<open>What one iteration does to the planks\<close>

lemma start_column_cases:
  assumes "start_column r v = (col, partial, pool, s0)"
  shows "fs_UID s0 = Plank_UID r \<and> fs_NEXT s0 = Plank_NEXT r \<and> fs_fullPlanks s0 = 0
       \<and> col = fold clip (hedges r) (new_Column (lv_l v) (PLANK_WIDTH r))
       \<and> ((partial = None \<and> pool = partials r \<and> fs_planks s0 = []
            \<and> fs_h s0 = col_height col - lv_first_offset v
            \<and> (lv_pickPartial v \<longrightarrow> fst (selectPartial ''>'' 0 (partials r)) = None))
          \<or> (\<exists>p0. lv_pickPartial v \<and> selectPartial ''>'' 0 (partials r) = (Some p0, pool)
                \<and> partial = Some (p0\<lparr>plank_left := lv_l v,
                                      plank_top := col_top col + lv_first_offset v\<rparr>)
                \<and> fs_planks s0 = [p0\<lparr>plank_left := lv_l v,
                                      plank_top := col_top col + lv_first_offset v\<rparr>]))"
  using assms
  by (auto simp: start_column_def Let_def selectPartial_None_pool
      split: if_splits prod.splits option.splits)

lemma remove_nth_mset:
  "i < length xs \<Longrightarrow> mset (take i xs @ drop (Suc i) xs) + {#xs ! i#} = mset xs"
  by (metis add_mset_add_single id_take_nth_drop mset.simps(2) mset_append union_mset_add_mset_right)

lemma selectPartial_mset:
  "selectPartial ce ml pool = (Some p, rest) \<Longrightarrow> mset rest + {#p#} = mset pool"
  using selectPartial_Some [of ce ml pool p rest] remove_nth_mset by blast

lemma start_column_uids:
  assumes "start_column r v = (col, partial, pool, s0)"
  shows "mset (map plank_uid pool) + mset (map plank_uid (fs_planks s0))
           = mset (map plank_uid (partials r))"
proof -
  from start_column_cases [OF assms] show ?thesis
  proof (elim conjE disjE exE)
    fix p0
    assume sel: "selectPartial ''>'' 0 (partials r) = (Some p0, pool)"
      and pl: "fs_planks s0 = [p0\<lparr>plank_left := lv_l v,
                                      plank_top := col_top col + lv_first_offset v\<rparr>]"
    from selectPartial_mset [OF sel]
    have "image_mset plank_uid (mset pool + {#p0#}) = image_mset plank_uid (mset (partials r))"
      by simp
    with pl show ?thesis by simp
  qed simp
qed

lemma lay_full_planks:
  assumes "lay_full l W L s0 = Some s"
  shows "\<exists>new. fs_planks s = fs_planks s0 @ new \<and> fs_UID s0 \<le> fs_UID s
           \<and> (\<forall>p \<in> set new. fs_UID s0 \<le> plank_uid p \<and> plank_uid p < fs_UID s
                  \<and> plank_length p = L \<and> plank_cut_end p = '''')
           \<and> (if L < fs_h s0 then new \<noteq> [] else s = s0)
           \<and> \<not> L < fs_h s"
proof (rule lay_full.raw_induct
    [where P = "\<lambda>l W L s0 s. \<exists>new. fs_planks s = fs_planks s0 @ new \<and> fs_UID s0 \<le> fs_UID s
           \<and> (\<forall>p \<in> set new. fs_UID s0 \<le> plank_uid p \<and> plank_uid p < fs_UID s
                  \<and> plank_length p = L \<and> plank_cut_end p = '''')
           \<and> (if L < fs_h s0 then new \<noteq> [] else s = s0)
           \<and> \<not> L < fs_h s", OF _ assms])
  fix lay l W L s0 s
  assume IH: "\<And>l W L s0 s. lay l W L s0 = Some s \<Longrightarrow>
        \<exists>new. fs_planks s = fs_planks s0 @ new \<and> fs_UID s0 \<le> fs_UID s
           \<and> (\<forall>p \<in> set new. fs_UID s0 \<le> plank_uid p \<and> plank_uid p < fs_UID s
                  \<and> plank_length p = L \<and> plank_cut_end p = '''')
           \<and> (if L < fs_h s0 then new \<noteq> [] else s = s0)
           \<and> \<not> L < fs_h s"
    and eq: "(if L < fs_h s0 then lay l W L (lay_plank l W L s0) else Some s0) = Some s"
  show "\<exists>new. fs_planks s = fs_planks s0 @ new \<and> fs_UID s0 \<le> fs_UID s
           \<and> (\<forall>p \<in> set new. fs_UID s0 \<le> plank_uid p \<and> plank_uid p < fs_UID s
                  \<and> plank_length p = L \<and> plank_cut_end p = '''')
           \<and> (if L < fs_h s0 then new \<noteq> [] else s = s0)
           \<and> \<not> L < fs_h s"
  proof (cases "L < fs_h s0")
    case False
    with eq show ?thesis by simp
  next
    case True
    with eq have "lay l W L (lay_plank l W L s0) = Some s" by simp
    from IH [OF this] obtain new where
      new: "fs_planks s = fs_planks (lay_plank l W L s0) @ new"
        "fs_UID (lay_plank l W L s0) \<le> fs_UID s"
        "\<forall>p \<in> set new. fs_UID (lay_plank l W L s0) \<le> plank_uid p \<and> plank_uid p < fs_UID s
                  \<and> plank_length p = L \<and> plank_cut_end p = ''''"
        "\<not> L < fs_h s"
      by blast
    let ?p = "\<lparr>plank_uid = fs_UID s0, plank_id = fs_NEXT s0, plank_cut_end = '''',
       plank_left = l, plank_top = fs_y s0, plank_width = W, plank_length = L,
       plank_permanent = False\<rparr>"
    from new True show ?thesis
      by (intro exI [of _ "?p # new"]) auto
  qed
qed


lemma lay_full_count:
  assumes "lay_full l W L s0 = Some s"
  shows "\<exists>new. fs_planks s = fs_planks s0 @ new
           \<and> fs_fullPlanks s = fs_fullPlanks s0 + length new
           \<and> fs_NEXT s = fs_NEXT s0 + length new
           \<and> (new \<noteq> [] \<longrightarrow> plank_uid (hd new) = fs_UID s0 \<and> plank_id (hd new) = fs_NEXT s0)"
proof (rule lay_full.raw_induct
    [where P = "\<lambda>l W L s0 s. \<exists>new. fs_planks s = fs_planks s0 @ new
           \<and> fs_fullPlanks s = fs_fullPlanks s0 + length new
           \<and> fs_NEXT s = fs_NEXT s0 + length new
           \<and> (new \<noteq> [] \<longrightarrow> plank_uid (hd new) = fs_UID s0 \<and> plank_id (hd new) = fs_NEXT s0)",
      OF _ assms])
  fix lay l W L s0 s
  assume IH: "\<And>l W L s0 s. lay l W L s0 = Some s \<Longrightarrow>
        \<exists>new. fs_planks s = fs_planks s0 @ new
           \<and> fs_fullPlanks s = fs_fullPlanks s0 + length new
           \<and> fs_NEXT s = fs_NEXT s0 + length new
           \<and> (new \<noteq> [] \<longrightarrow> plank_uid (hd new) = fs_UID s0 \<and> plank_id (hd new) = fs_NEXT s0)"
    and eq: "(if L < fs_h s0 then lay l W L (lay_plank l W L s0) else Some s0) = Some s"
  show "\<exists>new. fs_planks s = fs_planks s0 @ new
           \<and> fs_fullPlanks s = fs_fullPlanks s0 + length new
           \<and> fs_NEXT s = fs_NEXT s0 + length new
           \<and> (new \<noteq> [] \<longrightarrow> plank_uid (hd new) = fs_UID s0 \<and> plank_id (hd new) = fs_NEXT s0)"
  proof (cases "L < fs_h s0")
    case False
    with eq show ?thesis by simp
  next
    case True
    with eq have "lay l W L (lay_plank l W L s0) = Some s" by simp
    from IH [OF this] obtain new where
      new: "fs_planks s = fs_planks (lay_plank l W L s0) @ new"
        "fs_fullPlanks s = fs_fullPlanks (lay_plank l W L s0) + length new"
        "fs_NEXT s = fs_NEXT (lay_plank l W L s0) + length new"
      by blast
    let ?p = "\<lparr>plank_uid = fs_UID s0, plank_id = fs_NEXT s0, plank_cut_end = '''',
       plank_left = l, plank_top = fs_y s0, plank_width = W, plank_length = L,
       plank_permanent = False\<rparr>"
    from new show ?thesis
      by (intro exI [of _ "?p # new"]) simp
  qed
qed

lemma cut_plank_result:
  "\<exists>r' cp banked. cut_plank r v pool s = (r', fs_planks s @ [cp])
     \<and> plank_uid cp = fs_UID s
     \<and> partials r' = probe_base (lv_pickPartial v) (fs_h s) pool @ banked
     \<and> (\<forall>p \<in> set banked. plank_cut_end p = ''>'' \<and> plank_uid p = Suc (fs_UID s))
     \<and> columns r' = columns r"
proof (cases "MIN_PLANK_LENGTH r < PLANK_LENGTH r - fs_h s - CUT_THICKNESS r")
  case True
  from cut_plank_banked [OF this, of v pool] obtain r' cp p where
    "cut_plank r v pool s = (r', fs_planks s @ [cp])" "plank_uid cp = fs_UID s"
    "partials r' = probe_base (lv_pickPartial v) (fs_h s) pool @ [p]"
    "plank_cut_end p = ''>''" "plank_uid p = Suc (fs_UID s)" "columns r' = columns r"
    by blast
  then show ?thesis by (intro exI [of _ r'] exI [of _ cp] exI [of _ "[p]"]) simp
next
  case False
  from cut_plank_wasted [OF this, of v pool] obtain r' cp where
    "cut_plank r v pool s = (r', fs_planks s @ [cp])" "plank_uid cp = fs_UID s"
    "partials r' = probe_base (lv_pickPartial v) (fs_h s) pool" "columns r' = columns r"
    by blast
  then show ?thesis by (intro exI [of _ r'] exI [of _ cp] exI [of _ "[]"]) simp
qed

lemma probe_base_long:
  assumes "bp \<in> set pool" "plank_cut_end bp = ''<''" "h \<le> plank_length bp" "0 < h"
  shows "\<exists>q i. i < length pool \<and> q = pool ! i \<and> plank_cut_end q = ''<'' \<and> h \<le> plank_length q
           \<and> selectPartial ''<'' 0 pool = (Some q, take i pool @ drop (Suc i) pool)
           \<and> probe_base True h pool = take i pool @ drop (Suc i) pool"
proof -
  from assms have m: "matches ''<'' 0 bp" by (simp add: matches_def)
  with assms(1) have "fst (selectPartial ''<'' 0 pool) \<noteq> None"
    by (auto simp: selectPartial_None)
  then obtain q rest where sel: "selectPartial ''<'' 0 pool = (Some q, rest)"
    by (cases "selectPartial ''<'' 0 pool") auto
  from selectPartial_Some [OF sel] obtain i where i: "i < length pool" "q = pool ! i"
    "rest = take i pool @ drop (Suc i) pool" "matches ''<'' 0 q"
    and longest: "\<forall>j < length pool. matches ''<'' 0 (pool ! j) \<longrightarrow> plank_length (pool ! j) \<le> plank_length q"
    by blast
  from assms(1) obtain j where "j < length pool" "pool ! j = bp" by (auto simp: in_set_conv_nth)
  with longest m have "plank_length bp \<le> plank_length q" by auto
  with assms(3) have "h \<le> plank_length q" by simp
  with i sel show ?thesis by (auto simp: probe_base_def matches_def)
qed

text \<open>
  C9. Take any iteration of the column loop made with \<^verbatim>\<open>pickPartial\<close> set in which the
  column needs a fresh cut (\<open>h > 0\<close> after the whole planks, no retry), in a room whose
  uids are distinct and below the counter; \<open>pool\<close> is the pool after the start of the
  column. If the pool holds a bottom-cut plank at least \<open>h\<close> long, then the plank \<open>q\<close> that
  \<^verbatim>\<open>selectPartial("<")\<close> returns is bottom-cut and at least \<open>h\<close> long, the pool afterwards is
  the pool without that entry (followed by the leftover of the cut, if banked), and no
  plank of the room, in the pool or in a column, has the uid of \<open>q\<close>: the plank is gone.
  If instead the probe returns a plank shorter than \<open>h\<close>, that plank is pushed back at
  the end of the pool.
\<close>

theorem probe_drops_long_partial:
  assumes st: "start_column r v = (col, partial, pool, s0)"
    and lay: "lay_full (lv_l v) (PLANK_WIDTH r) (PLANK_LENGTH r) s0 = Some s"
    and h: "0 < fs_h s"
    and noretry: "\<not> (fs_h s < MIN_PLANK_LENGTH r \<and> partial \<noteq> None)"
    and pick: "lv_pickPartial v"
    and wf: "uids_wf r"
  shows "\<exists>r' v'. column_attempt r v = Some (r', v')
     \<and> ((\<exists>bp \<in> set pool. plank_cut_end bp = ''<'' \<and> fs_h s \<le> plank_length bp) \<longrightarrow>
          (\<exists>q i banked. i < length pool \<and> q = pool ! i \<and> plank_cut_end q = ''<''
             \<and> fs_h s \<le> plank_length q
             \<and> selectPartial ''<'' 0 pool = (Some q, take i pool @ drop (Suc i) pool)
             \<and> partials r' = take i pool @ drop (Suc i) pool @ banked
             \<and> (\<forall>p \<in> set banked. plank_cut_end p = ''>'')
             \<and> plank_uid q \<notin> set (room_uids r')))
     \<and> (\<forall>q rest. selectPartial ''<'' 0 pool = (Some q, rest) \<and> plank_length q < fs_h s \<longrightarrow>
          (\<exists>banked. partials r' = rest @ [q] @ banked
             \<and> (\<forall>p \<in> set banked. plank_cut_end p = ''>'')))"
proof -
  let ?r1 = "r\<lparr>planksNeeded := planksNeeded r + fs_fullPlanks s\<rparr>"
  let ?V = "v\<lparr>lv_l := lv_l v + PLANK_WIDTH r, lv_first_offset := 0, lv_pickPartial := True\<rparr>"
  let ?U = "map plank_uid"
  let ?C = "concat (map (map plank_uid \<circ> col_planks) (columns r))"
  from cut_plank_result [of ?r1 v pool s] pick obtain r2 cp banked where
    cut: "cut_plank ?r1 v pool s = (r2, fs_planks s @ [cp])"
    and cp: "plank_uid cp = fs_UID s"
    and pool2: "partials r2 = probe_base True (fs_h s) pool @ banked"
    and banked: "\<forall>p \<in> set banked. plank_cut_end p = ''>'' \<and> plank_uid p = Suc (fs_UID s)"
    by auto
  define R where "R = r2\<lparr>columns := columns r @ [col\<lparr>col_planks := fs_planks s @ [cp]\<rparr>]\<rparr>"
  have run: "column_attempt r v = Some (R, ?V)"
    by (simp add: column_attempt_eq [OF st lay] finish_column_cut [OF h noretry cut] R_def)
  have Rp: "partials R = probe_base True (fs_h s) pool @ banked" by (simp add: R_def pool2)
  have Ru: "room_uids R = ?U (partials R) @ ?C @ ?U (fs_planks s) @ [plank_uid cp]"
    by (simp add: R_def room_uids_def)
  have long: "\<exists>q i banked. i < length pool \<and> q = pool ! i \<and> plank_cut_end q = ''<''
             \<and> fs_h s \<le> plank_length q
             \<and> selectPartial ''<'' 0 pool = (Some q, take i pool @ drop (Suc i) pool)
             \<and> partials R = take i pool @ drop (Suc i) pool @ banked
             \<and> (\<forall>p \<in> set banked. plank_cut_end p = ''>'')
             \<and> plank_uid q \<notin> set (room_uids R)"
    if "\<exists>bp \<in> set pool. plank_cut_end bp = ''<'' \<and> fs_h s \<le> plank_length bp"
  proof -
    from that obtain bp where "bp \<in> set pool" "plank_cut_end bp = ''<''" "fs_h s \<le> plank_length bp"
      by blast
    from probe_base_long [OF this h] obtain q i where
      i: "i < length pool" and q: "q = pool ! i" "plank_cut_end q = ''<''" "fs_h s \<le> plank_length q"
      and sel: "selectPartial ''<'' 0 pool = (Some q, take i pool @ drop (Suc i) pool)"
      and probe: "probe_base True (fs_h s) pool = take i pool @ drop (Suc i) pool"
      by blast
    let ?rest = "take i pool @ drop (Suc i) pool"
    from wf have d: "distinct (?U (partials r) @ ?C)"
      and below: "\<forall>u \<in> set (?U (partials r) @ ?C). u < Plank_UID r"
      by (simp_all add: uids_wf_def room_uids_def list_all_iff)
    from start_column_uids [OF st]
    have ms: "mset (?U pool @ ?U (fs_planks s0) @ ?C) = mset (?U (partials r) @ ?C)"
      by (simp add: ac_simps)
    from ms d have d2: "distinct (?U pool @ ?U (fs_planks s0) @ ?C)"
      by (metis mset_eq_imp_distinct_iff)
    from ms have "set (?U pool @ ?U (fs_planks s0) @ ?C) = set (?U (partials r) @ ?C)"
      by (rule mset_eq_setD)
    with below have below2: "\<forall>u \<in> set (?U pool @ ?U (fs_planks s0) @ ?C). u < Plank_UID r"
      by simp
    have split: "pool = take i pool @ q # drop (Suc i) pool"
      using i q(1) by (simp add: id_take_nth_drop)
    have "distinct (?U (take i pool @ q # drop (Suc i) pool) @ ?U (fs_planks s0) @ ?C)"
      using d2 split by simp
    then have notin: "plank_uid q \<notin> set (?U ?rest)" "plank_uid q \<notin> set (?U (fs_planks s0))"
      "plank_uid q \<notin> set ?C"
      by auto
    have "q \<in> set pool" using i q(1) by simp
    with below2 have qlt: "plank_uid q < Plank_UID r" by simp
    from start_column_cases [OF st] have uid0: "fs_UID s0 = Plank_UID r" by simp
    from lay_full_planks [OF lay] uid0 obtain new where
      new: "fs_planks s = fs_planks s0 @ new" "Plank_UID r \<le> fs_UID s"
        "\<forall>p \<in> set new. Plank_UID r \<le> plank_uid p"
      by auto
    from new(3) qlt have "plank_uid q \<notin> set (?U new)" by auto
    moreover from banked new(2) qlt have "plank_uid q \<notin> set (?U banked)" by auto
    moreover from cp new(2) qlt have "plank_uid q \<noteq> plank_uid cp" by simp
    ultimately have "plank_uid q \<notin> set (room_uids R)"
      using notin by (simp add: Ru Rp probe new(1))
    with i q sel banked show ?thesis
      by (intro exI [of _ q] exI [of _ i] exI [of _ banked]) (simp add: Rp probe)
  qed
  have short: "\<exists>banked. partials R = rest @ [q] @ banked
             \<and> (\<forall>p \<in> set banked. plank_cut_end p = ''>'')"
    if "selectPartial ''<'' 0 pool = (Some q, rest) \<and> plank_length q < fs_h s" for q rest
    using that banked by (intro exI [of _ banked]) (simp add: Rp probe_base_def)
  from run long short show ?thesis by blast
qed

text \<open>
  The square room with one pre-cut plank in the pool, cut at the bottom. A plank 50 long
  is at least as long as the \<open>h = 40\<close> of the first column: after that column the pool is
  empty and the plank is in no column. A plank 30 long is shorter and stays in the pool.
\<close>

theorem probe_drops_long_partial_witness:
  "(let (r, v) = recompute_init (measure_room
                   (square_room\<lparr>partials := [user_plank 0 ''<'' 10 50], Plank_UID := 1\<rparr>));
        (col, partial, pool, s0) = start_column r v;
        s = the (lay_full (lv_l v) (PLANK_WIDTH r) (PLANK_LENGTH r) s0)
    in lay_full (lv_l v) (PLANK_WIDTH r) (PLANK_LENGTH r) s0 = Some s
       \<and> 0 < fs_h s \<and> \<not> (fs_h s < MIN_PLANK_LENGTH r \<and> partial \<noteq> None)
       \<and> lv_pickPartial v \<and> uids_wf r
       \<and> map plank_uid pool = [0] \<and> map plank_cut_end pool = [''<'']
       \<and> fs_h s \<le> plank_length (pool ! 0)
       \<and> map_option (room_uids \<circ> fst) (column_attempt r v) = Some [1, 2])
   \<and> (let (r, v) = recompute_init (measure_room
                   (square_room\<lparr>partials := [user_plank 0 ''<'' 10 30], Plank_UID := 1\<rparr>))
      in map_option (room_uids \<circ> fst) (column_attempt r v) = Some [0, 1, 2])"
proof -
  let ?room = "measure_room (square_room\<lparr>partials := [user_plank 0 ''<'' 10 50], Plank_UID := 1\<rparr>)"
  let ?r = "fst (recompute_init ?room)"
  let ?v = "snd (recompute_init ?room)"
  let ?sc = "start_column ?r ?v"
  let ?pool = "fst (snd (snd ?sc))"
  let ?init = "snd (snd (snd ?sc))"
  let ?fin = "the (lay_full (lv_l ?v) (PLANK_WIDTH ?r) (PLANK_LENGTH ?r) ?init)"
  have st: "start_column ?r ?v = (fst ?sc, fst (snd ?sc), ?pool, ?init)" by simp
  have lay: "lay_full (lv_l ?v) (PLANK_WIDTH ?r) (PLANK_LENGTH ?r) ?init = Some ?fin" by code_simp
  have h: "0 < fs_h ?fin" by code_simp
  have nr: "\<not> (fs_h ?fin < MIN_PLANK_LENGTH ?r \<and> fst (snd ?sc) \<noteq> None)" by code_simp
  have pick: "lv_pickPartial ?v" by code_simp
  have wf: "uids_wf ?r" by code_simp
  have pool: "map plank_uid ?pool = [0]" "map plank_cut_end ?pool = [''<'']"
    "fs_h ?fin \<le> plank_length (?pool ! 0)"
    by code_simp+
  have a: "map_option (room_uids \<circ> fst) (column_attempt ?r ?v) = Some [1, 2]" by code_simp
  have b: "(let (r, v) = recompute_init (measure_room
                   (square_room\<lparr>partials := [user_plank 0 ''<'' 10 30], Plank_UID := 1\<rparr>))
      in map_option (room_uids \<circ> fst) (column_attempt r v) = Some [0, 1, 2])"
    by code_simp
  from probe_drops_long_partial [OF st lay h nr pick wf] lay h nr pick wf pool a b
  show ?thesis by (simp add: Let_def split_beta)
qed

section \<open>The retry of a column\<close>







section \<open>Waste\<close>

lemma pool_length_append: "pool_length (xs @ ys) = pool_length xs + pool_length ys"
  by (simp add: pool_length_def)

lemma pool_length_mset: "mset xs = mset ys \<Longrightarrow> pool_length xs = pool_length ys"
proof -
  assume "mset xs = mset ys"
  then have "mset (map plank_length xs) = mset (map plank_length ys)" by simp
  then have "sum_mset (mset (map plank_length xs)) = sum_mset (mset (map plank_length ys))"
    by (rule arg_cong)
  then show ?thesis by (simp only: pool_length_def sum_mset_sum_list)
qed

lemma pool_length_whole:
  assumes "\<forall>p \<in> set ps. plank_length p = L"
  shows "pool_length ps = of_nat (length ps) * L"
  using assms by (induction ps) (simp_all add: pool_length_def algebra_simps)

lemma measures_same:
  assumes "columns r' = columns r" "PLANK_LENGTH r' = PLANK_LENGTH r"
    "CUT_THICKNESS r' = CUT_THICKNESS r" "MIN_PLANK_LENGTH r' = MIN_PLANK_LENGTH r"
  shows "laid_length r' = laid_length r \<and> discarded r' = discarded r
       \<and> bottom_cuts r' = bottom_cuts r"
proof -
  from assms have "offcut r' = offcut r" by (simp add: offcut_def fun_eq_iff)
  moreover from this assms have "is_discarded r' = is_discarded r"
    by (simp add: is_discarded_def fun_eq_iff)
  moreover from assms have "all_planks r' = all_planks r" by (simp add: all_planks_def)
  ultimately show ?thesis by (simp add: laid_length_def discarded_def bottom_cuts_def)
qed

lemma measures_append:
  assumes "columns r' = columns r @ [c]" "PLANK_LENGTH r' = PLANK_LENGTH r"
    "CUT_THICKNESS r' = CUT_THICKNESS r" "MIN_PLANK_LENGTH r' = MIN_PLANK_LENGTH r"
  shows "laid_length r' = laid_length r + pool_length (col_planks c)
       \<and> discarded r' = discarded r
            + sum_list (map (offcut r) (filter (is_discarded r) (col_planks c)))
       \<and> bottom_cuts r' = bottom_cuts r
            + length (filter (\<lambda>p. plank_cut_end p = ''<'') (col_planks c))"
proof -
  from assms have "offcut r' = offcut r" by (simp add: offcut_def fun_eq_iff)
  moreover from this assms have "is_discarded r' = is_discarded r"
    by (simp add: is_discarded_def fun_eq_iff)
  moreover from assms have "all_planks r' = all_planks r @ col_planks c"
    by (simp add: all_planks_def)
  ultimately show ?thesis
    by (simp add: laid_length_def discarded_def bottom_cuts_def pool_length_append)
qed

lemma probe_base_none:
  assumes "\<forall>p \<in> set pool. plank_cut_end p \<noteq> ''<''"
  shows "probe_base pick h pool = pool"
proof -
  from assms have "\<forall>p \<in> set pool. \<not> matches ''<'' 0 p" by (simp add: matches_def)
  then have "fst (selectPartial ''<'' 0 pool) = None" by (simp only: selectPartial_None)
  then obtain pool' where sel: "selectPartial ''<'' 0 pool = (None, pool')"
    by (cases "selectPartial ''<'' 0 pool") auto
  from selectPartial_None_pool [OF sel] sel show ?thesis by (simp add: probe_base_def)
qed

text \<open>
  The head of a column: the partial that was taken, if any, has left the pool and is cut at
  its top end.
\<close>

lemma start_column_material:
  assumes st: "start_column r v = (col, partial, pool, s0)"
    and nolt: "\<forall>p \<in> set (partials r). plank_cut_end p \<noteq> ''<''"
  shows "pool_length (partials r) = pool_length pool + pool_length (fs_planks s0)
       \<and> (\<forall>p \<in> set pool. plank_cut_end p \<noteq> ''<'')
       \<and> (\<forall>p \<in> set (fs_planks s0). plank_cut_end p = ''>'')
       \<and> fs_planks s0 = (case partial of None \<Rightarrow> [] | Some p \<Rightarrow> [p])
       \<and> fs_fullPlanks s0 = 0"
proof -
  from start_column_cases [OF st] have full: "fs_fullPlanks s0 = 0" by simp
  from start_column_cases [OF st] consider
    (none) "partial = None" "pool = partials r" "fs_planks s0 = []"
  | (some) p0 where "selectPartial ''>'' 0 (partials r) = (Some p0, pool)"
      "partial = Some (p0\<lparr>plank_left := lv_l v, plank_top := col_top col + lv_first_offset v\<rparr>)"
      "fs_planks s0 = [p0\<lparr>plank_left := lv_l v, plank_top := col_top col + lv_first_offset v\<rparr>]"
    by blast
  then show ?thesis
  proof cases
    case none
    with nolt full show ?thesis by (simp add: pool_length_def)
  next
    case some
    from selectPartial_mset [OF some(1)] have m: "mset (pool @ [p0]) = mset (partials r)" by simp
    from pool_length_mset [OF m] have len: "pool_length (partials r) = pool_length pool + plank_length p0"
      by (simp add: pool_length_def)
    from m have "set (pool @ [p0]) = set (partials r)" by (rule mset_eq_setD)
    with nolt have pool: "\<forall>p \<in> set pool. plank_cut_end p \<noteq> ''<''" by auto
    from selectPartial_Some [OF some(1)] have "plank_cut_end p0 = ''>''" by (auto simp: matches_def)
    with len pool some full show ?thesis by (simp add: pool_length_def)
  qed
qed

text \<open>
  One iteration of the column loop keeps the balance of material: what the iteration adds
  to the planks needed, times \<^verbatim>\<open>PLANK_LENGTH\<close>, is what it adds to the planks laid, to the
  pool, to the kerf of the cuts and to the offcuts that were not banked, as long as the
  pool holds no plank cut at the bottom (such a plank may be dropped by the probe).
\<close>

lemma column_attempt_balance:
  assumes att: "column_attempt r v = Some (r', v')"
    and nolt: "\<forall>p \<in> set (partials r). plank_cut_end p \<noteq> ''<''"
  shows "(\<forall>p \<in> set (partials r'). plank_cut_end p \<noteq> ''<'')
       \<and> of_nat (planksNeeded r') * PLANK_LENGTH r
            + (laid_length r + pool_length (partials r)
               + CUT_THICKNESS r * of_nat (cuts r) + discarded r)
         = of_nat (planksNeeded r) * PLANK_LENGTH r
            + (laid_length r' + pool_length (partials r')
               + CUT_THICKNESS r * of_nat (cuts r') + discarded r')
       \<and> cuts r' + bottom_cuts r = cuts r + bottom_cuts r'"
proof -
  from att obtain col partial pool s0 s where
    st: "start_column r v = (col, partial, pool, s0)"
    and lay: "lay_full (lv_l v) (PLANK_WIDTH r) (PLANK_LENGTH r) s0 = Some s"
    and fin: "finish_column r v col partial pool s = (r', v')"
    unfolding column_attempt_Some by blast
  from column_attempt_frame [OF att] have
    fr: "PLANK_LENGTH r' = PLANK_LENGTH r" "CUT_THICKNESS r' = CUT_THICKNESS r"
      "MIN_PLANK_LENGTH r' = MIN_PLANK_LENGTH r"
    by simp_all
  from start_column_material [OF st nolt] have
    head: "pool_length (partials r) = pool_length pool + pool_length (fs_planks s0)"
    and pool: "\<forall>p \<in> set pool. plank_cut_end p \<noteq> ''<''"
    and top: "\<forall>p \<in> set (fs_planks s0). plank_cut_end p = ''>''"
    and part: "fs_planks s0 = (case partial of None \<Rightarrow> [] | Some p \<Rightarrow> [p])"
    and full0: "fs_fullPlanks s0 = 0"
    by blast+
  from lay_full_planks [OF lay] obtain new where
    new: "fs_planks s = fs_planks s0 @ new"
    and whole: "\<forall>p \<in> set new. plank_length p = PLANK_LENGTH r \<and> plank_cut_end p = ''''"
    by blast
  from lay_full_count [OF lay] new full0 have count: "fs_fullPlanks s = length new" by auto
  from whole have wlen: "pool_length new = of_nat (length new) * PLANK_LENGTH r"
    by (intro pool_length_whole) simp
  have laid: "pool_length (fs_planks s) = pool_length (fs_planks s0) + of_nat (length new) * PLANK_LENGTH r"
    by (simp add: new pool_length_append wlen)
  have nodisc: "filter (is_discarded r) (fs_planks s) = []"
    "filter (\<lambda>p. plank_cut_end p = ''<'') (fs_planks s) = []"
    using top whole by (auto simp: new is_discarded_def filter_empty_conv)
  show ?thesis
  proof (cases "0 < fs_h s \<and> fs_h s < MIN_PLANK_LENGTH r \<and> partial \<noteq> None")
    case True
    then obtain p where p: "partial = Some p" by auto
    with True fin have r': "r' = r\<lparr>partials := pool @ [p], Plank_NEXT := fs_NEXT s, Plank_UID := fs_UID s\<rparr>"
      by (simp add: finish_column_def)
    then have same: "columns r' = columns r" "planksNeeded r' = planksNeeded r" "cuts r' = cuts r"
      "partials r' = pool @ [p]"
      by simp_all
    from p part have s0: "fs_planks s0 = [p]" by simp
    from measures_same [OF same(1) fr] same head pool top s0 show ?thesis
      by (simp add: pool_length_append)
  next
    case False
    let ?r1 = "r\<lparr>planksNeeded := planksNeeded r + fs_fullPlanks s\<rparr>"
    show ?thesis
    proof (cases "0 < fs_h s")
      case h: False
      with False fin have r': "r' = ?r1\<lparr>partials := pool, Plank_NEXT := fs_NEXT s, Plank_UID := fs_UID s,
          columns := columns r @ [col\<lparr>col_planks := fs_planks s\<rparr>]\<rparr>"
        by (simp add: finish_column_def Let_def)
      then have upd: "columns r' = columns r @ [col\<lparr>col_planks := fs_planks s\<rparr>]"
        "planksNeeded r' = planksNeeded r + length new" "cuts r' = cuts r" "partials r' = pool"
        by (simp_all add: count)
      from measures_append [OF upd(1) fr] nodisc have
        "laid_length r' = laid_length r + pool_length (fs_planks s)"
        "discarded r' = discarded r" "bottom_cuts r' = bottom_cuts r"
        by simp_all
      with upd head pool laid show ?thesis by (simp add: algebra_simps)
    next
      case h: True
      have cst: "PLANK_LENGTH ?r1 = PLANK_LENGTH r" "CUT_THICKNESS ?r1 = CUT_THICKNESS r"
        "MIN_PLANK_LENGTH ?r1 = MIN_PLANK_LENGTH r" "planksNeeded ?r1 = planksNeeded r + length new"
        "cuts ?r1 = cuts r"
        by (simp_all add: count)
      have probe: "probe_base (lv_pickPartial v) (fs_h s) pool = pool"
        by (rule probe_base_none [OF pool])
      show ?thesis
      proof (cases "MIN_PLANK_LENGTH r < PLANK_LENGTH r - fs_h s - CUT_THICKNESS r")
        case banked: True
        from cut_plank_banked [of ?r1 s v pool] banked cst probe obtain r2 cp p where
          cut: "cut_plank ?r1 v pool s = (r2, fs_planks s @ [cp])"
          and cp: "plank_length cp = fs_h s" "plank_cut_end cp = ''<''"
          and r2: "partials r2 = pool @ [p]" "plank_cut_end p = ''>''"
            "plank_length p = PLANK_LENGTH r - fs_h s - CUT_THICKNESS r"
            "planksNeeded r2 = Suc (planksNeeded r + length new)" "cuts r2 = Suc (cuts r)"
          by auto
        from False h fin cut have r': "r' = r2\<lparr>columns := columns r @ [col\<lparr>col_planks := fs_planks s @ [cp]\<rparr>]\<rparr>"
          by (auto simp: finish_column_def Let_def)
        then have upd: "columns r' = columns r @ [col\<lparr>col_planks := fs_planks s @ [cp]\<rparr>]"
          "planksNeeded r' = Suc (planksNeeded r + length new)" "cuts r' = Suc (cuts r)"
          "partials r' = pool @ [p]"
          by (simp_all add: r2)
        from banked cp have nd: "\<not> is_discarded r cp" by (simp add: is_discarded_def offcut_def)
        from measures_append [OF upd(1) fr] nodisc nd cp have
          "laid_length r' = laid_length r + pool_length (fs_planks s) + fs_h s"
          "discarded r' = discarded r" "bottom_cuts r' = Suc (bottom_cuts r)"
          by (simp_all add: pool_length_append) (simp_all add: pool_length_def)
        with upd head pool laid r2 show ?thesis
          by (simp add: pool_length_append algebra_simps) (simp add: pool_length_def)
      next
        case wasted: False
        from cut_plank_wasted [of ?r1 s v pool] wasted cst probe obtain r2 cp where
          cut: "cut_plank ?r1 v pool s = (r2, fs_planks s @ [cp])"
          and cp: "plank_length cp = fs_h s" "plank_cut_end cp = ''<''"
          and r2: "partials r2 = pool"
            "planksNeeded r2 = Suc (planksNeeded r + length new)" "cuts r2 = Suc (cuts r)"
          by auto
        from False h fin cut have r': "r' = r2\<lparr>columns := columns r @ [col\<lparr>col_planks := fs_planks s @ [cp]\<rparr>]\<rparr>"
          by (auto simp: finish_column_def Let_def)
        then have upd: "columns r' = columns r @ [col\<lparr>col_planks := fs_planks s @ [cp]\<rparr>]"
          "planksNeeded r' = Suc (planksNeeded r + length new)" "cuts r' = Suc (cuts r)"
          "partials r' = pool"
          by (simp_all add: r2)
        from wasted cp have d: "is_discarded r cp" "offcut r cp = PLANK_LENGTH r - fs_h s - CUT_THICKNESS r"
          by (simp_all add: is_discarded_def offcut_def)
        from measures_append [OF upd(1) fr] nodisc d cp have
          "laid_length r' = laid_length r + pool_length (fs_planks s) + fs_h s"
          "discarded r' = discarded r + (PLANK_LENGTH r - fs_h s - CUT_THICKNESS r)"
          "bottom_cuts r' = Suc (bottom_cuts r)"
          by (simp_all add: pool_length_append) (simp_all add: pool_length_def)
        with upd head pool laid show ?thesis
          by (simp add: algebra_simps)
      qed
    qed
  qed
qed

lemma floor_loop_balance:
  assumes "floor_loop r v = Some r'"
  shows "(\<forall>p \<in> set (partials r). plank_cut_end p \<noteq> ''<'') \<longrightarrow>
       PLANK_LENGTH r' = PLANK_LENGTH r \<and> CUT_THICKNESS r' = CUT_THICKNESS r
       \<and> of_nat (planksNeeded r') * PLANK_LENGTH r
            + (laid_length r + pool_length (partials r)
               + CUT_THICKNESS r * of_nat (cuts r) + discarded r)
         = of_nat (planksNeeded r) * PLANK_LENGTH r
            + (laid_length r' + pool_length (partials r')
               + CUT_THICKNESS r * of_nat (cuts r') + discarded r')
       \<and> cuts r' + bottom_cuts r = cuts r + bottom_cuts r'"
proof (rule floor_loop.raw_induct
    [where P = "\<lambda>r v r'. (\<forall>p \<in> set (partials r). plank_cut_end p \<noteq> ''<'') \<longrightarrow>
       PLANK_LENGTH r' = PLANK_LENGTH r \<and> CUT_THICKNESS r' = CUT_THICKNESS r
       \<and> of_nat (planksNeeded r') * PLANK_LENGTH r
            + (laid_length r + pool_length (partials r)
               + CUT_THICKNESS r * of_nat (cuts r) + discarded r)
         = of_nat (planksNeeded r) * PLANK_LENGTH r
            + (laid_length r' + pool_length (partials r')
               + CUT_THICKNESS r * of_nat (cuts r') + discarded r')
       \<and> cuts r' + bottom_cuts r = cuts r + bottom_cuts r'", OF _ assms])
  fix loop r v r'
  assume IH: "\<And>r v r'. loop r v = Some r' \<Longrightarrow>
       (\<forall>p \<in> set (partials r). plank_cut_end p \<noteq> ''<'') \<longrightarrow>
       PLANK_LENGTH r' = PLANK_LENGTH r \<and> CUT_THICKNESS r' = CUT_THICKNESS r
       \<and> of_nat (planksNeeded r') * PLANK_LENGTH r
            + (laid_length r + pool_length (partials r)
               + CUT_THICKNESS r * of_nat (cuts r) + discarded r)
         = of_nat (planksNeeded r) * PLANK_LENGTH r
            + (laid_length r' + pool_length (partials r')
               + CUT_THICKNESS r * of_nat (cuts r') + discarded r')
       \<and> cuts r' + bottom_cuts r = cuts r + bottom_cuts r'"
    and eq: "(if lv_l v < rightmost r
              then Option.bind (column_attempt r v) (\<lambda>(r', v'). loop r' v')
              else Some r) = Some r'"
  show "(\<forall>p \<in> set (partials r). plank_cut_end p \<noteq> ''<'') \<longrightarrow>
       PLANK_LENGTH r' = PLANK_LENGTH r \<and> CUT_THICKNESS r' = CUT_THICKNESS r
       \<and> of_nat (planksNeeded r') * PLANK_LENGTH r
            + (laid_length r + pool_length (partials r)
               + CUT_THICKNESS r * of_nat (cuts r) + discarded r)
         = of_nat (planksNeeded r) * PLANK_LENGTH r
            + (laid_length r' + pool_length (partials r')
               + CUT_THICKNESS r * of_nat (cuts r') + discarded r')
       \<and> cuts r' + bottom_cuts r = cuts r + bottom_cuts r'"
  proof (cases "lv_l v < rightmost r")
    case False
    with eq show ?thesis by simp
  next
    case True
    with eq obtain r1 v1 where att: "column_attempt r v = Some (r1, v1)"
      and rest: "loop r1 v1 = Some r'"
      by (auto simp: bind_eq_Some_conv)
    show ?thesis
    proof
      assume nolt: "\<forall>p \<in> set (partials r). plank_cut_end p \<noteq> ''<''"
      from column_attempt_frame [OF att] have
        fr: "PLANK_LENGTH r1 = PLANK_LENGTH r" "CUT_THICKNESS r1 = CUT_THICKNESS r"
        by simp_all
      from column_attempt_balance [OF att nolt] have
        nolt1: "\<forall>p \<in> set (partials r1). plank_cut_end p \<noteq> ''<''"
        and bal1: "of_nat (planksNeeded r1) * PLANK_LENGTH r
            + (laid_length r + pool_length (partials r)
               + CUT_THICKNESS r * of_nat (cuts r) + discarded r)
         = of_nat (planksNeeded r) * PLANK_LENGTH r
            + (laid_length r1 + pool_length (partials r1)
               + CUT_THICKNESS r * of_nat (cuts r1) + discarded r1)"
        and cut1: "cuts r1 + bottom_cuts r = cuts r + bottom_cuts r1"
        by blast+
      from IH [OF rest] nolt1 fr have
        fr2: "PLANK_LENGTH r' = PLANK_LENGTH r" "CUT_THICKNESS r' = CUT_THICKNESS r"
        and bal2: "of_nat (planksNeeded r') * PLANK_LENGTH r
            + (laid_length r1 + pool_length (partials r1)
               + CUT_THICKNESS r * of_nat (cuts r1) + discarded r1)
         = of_nat (planksNeeded r1) * PLANK_LENGTH r
            + (laid_length r' + pool_length (partials r')
               + CUT_THICKNESS r * of_nat (cuts r') + discarded r')"
        and cut2: "cuts r' + bottom_cuts r1 = cuts r1 + bottom_cuts r'"
        by simp_all
      from bal1 bal2 have "of_nat (planksNeeded r') * PLANK_LENGTH r
            + (laid_length r + pool_length (partials r)
               + CUT_THICKNESS r * of_nat (cuts r) + discarded r)
         = of_nat (planksNeeded r) * PLANK_LENGTH r
            + (laid_length r' + pool_length (partials r')
               + CUT_THICKNESS r * of_nat (cuts r') + discarded r')"
        by linarith
      moreover from cut1 cut2 have "cuts r' + bottom_cuts r = cuts r + bottom_cuts r'"
        by linarith
      ultimately show "PLANK_LENGTH r' = PLANK_LENGTH r \<and> CUT_THICKNESS r' = CUT_THICKNESS r
       \<and> of_nat (planksNeeded r') * PLANK_LENGTH r
            + (laid_length r + pool_length (partials r)
               + CUT_THICKNESS r * of_nat (cuts r) + discarded r)
         = of_nat (planksNeeded r) * PLANK_LENGTH r
            + (laid_length r' + pool_length (partials r')
               + CUT_THICKNESS r * of_nat (cuts r') + discarded r')
       \<and> cuts r' + bottom_cuts r = cuts r + bottom_cuts r'"
        using fr2 by simp
    qed
  qed
qed

text \<open>
  C2, with the accounting stated. For every layout that \<^verbatim>\<open>recomputeFloor\<close> computes, the
  waste is the length of the planks needed minus the sum of the column heights, so that
  the column heights and the waste add up to \<open>planksNeeded \<times> PLANK_LENGTH\<close> (in exact
  arithmetic). When the pool with which the layout starts (the permanent planks that
  \<^verbatim>\<open>collectPermanentPartials\<close> keeps) holds no plank cut at its bottom end, the material
  balances: the boards needed and the pool at the start are the planks laid, the pool at
  the end, one kerf for each cut and the offcuts that were not banked; and there is one
  cut for each plank of the columns that is cut at the bottom. Hence the waste is the kerf
  loss and the discarded offcuts, plus the length laid beyond the column heights, plus
  what the pool has gained: leftovers still banked at the end count as waste, and
  planks of the starting pool that were laid are subtracted from it.
\<close>

theorem waste_material_balance:
  assumes run: "recomputeFloor r = Some r'"
    and nolt: "\<forall>p \<in> set (partials (fst (recompute_init r))). plank_cut_end p \<noteq> ''<''"
  shows "waste r' = of_nat (planksNeeded r') * PLANK_LENGTH r'
                      - sum_list (map col_height (columns r'))
       \<and> sum_list (map col_height (columns r')) + waste r'
           = of_nat (planksNeeded r') * PLANK_LENGTH r'
       \<and> of_nat (planksNeeded r') * PLANK_LENGTH r'
           + pool_length (partials (fst (recompute_init r)))
         = laid_length r' + pool_length (partials r')
           + CUT_THICKNESS r' * of_nat (cuts r') + discarded r'
       \<and> cuts r' = bottom_cuts r'
       \<and> waste r' = CUT_THICKNESS r' * of_nat (cuts r') + discarded r'
           + (laid_length r' - sum_list (map col_height (columns r')))
           + (pool_length (partials r') - pool_length (partials (fst (recompute_init r))))"
proof -
  obtain r1 v where init: "recompute_init r = (r1, v)" by (cases "recompute_init r")
  with run have loop: "floor_loop r1 v = Some r'" by (simp add: recomputeFloor_def)
  from recompute_init_frame [OF init] have
    start: "columns r1 = []" "planksNeeded r1 = 0" "cuts r1 = 0"
    by simp_all
  then have zero: "laid_length r1 = 0" "discarded r1 = 0" "bottom_cuts r1 = 0"
    by (simp_all add: laid_length_def discarded_def bottom_cuts_def all_planks_def pool_length_def)
  from nolt init have "\<forall>p \<in> set (partials r1). plank_cut_end p \<noteq> ''<''" by simp
  with floor_loop_balance [OF loop] start zero have
    fr: "PLANK_LENGTH r' = PLANK_LENGTH r1" "CUT_THICKNESS r' = CUT_THICKNESS r1"
    and bal: "of_nat (planksNeeded r') * PLANK_LENGTH r1 + pool_length (partials r1)
         = laid_length r' + pool_length (partials r')
            + CUT_THICKNESS r1 * of_nat (cuts r') + discarded r'"
    and cut: "cuts r' = bottom_cuts r'"
    by simp_all
  from bal fr init have balance: "of_nat (planksNeeded r') * PLANK_LENGTH r'
           + pool_length (partials (fst (recompute_init r)))
         = laid_length r' + pool_length (partials r')
           + CUT_THICKNESS r' * of_nat (cuts r') + discarded r'"
    by simp
  have w: "waste r' = of_nat (planksNeeded r') * PLANK_LENGTH r'
                      - sum_list (map col_height (columns r'))"
    by (simp add: waste_def)
  from w balance cut show ?thesis by simp
qed

text \<open>
  The room 10 by 80 with the pre-cut plank of length 50 in the pool: the plank is laid at
  the head of the one column, the remaining 30 are cut from a new board, and the offcut of
  30 is not banked.
\<close>

theorem waste_material_balance_witness:
  "recomputeFloor (measure_room pool_room) \<noteq> None
   \<and> list_all (\<lambda>p. plank_cut_end p \<noteq> ''<'')
       (partials (fst (recompute_init (measure_room pool_room))))
   \<and> (let r' = the (recomputeFloor (measure_room pool_room))
      in of_nat (planksNeeded r') * PLANK_LENGTH r'
           + pool_length (partials (fst (recompute_init (measure_room pool_room))))
         = laid_length r' + pool_length (partials r')
           + CUT_THICKNESS r' * of_nat (cuts r') + discarded r'
       \<and> (laid_length r', pool_length (partials r'), cuts r', discarded r')
         = (80, 0, 1, 30))"
proof -
  let ?r = "measure_room pool_room"
  have ne: "recomputeFloor ?r \<noteq> None" by code_simp
  have pool: "list_all (\<lambda>p. plank_cut_end p \<noteq> ''<'') (partials (fst (recompute_init ?r)))"
    by code_simp
  have vals: "(laid_length (the (recomputeFloor ?r)), pool_length (partials (the (recomputeFloor ?r))),
      cuts (the (recomputeFloor ?r)), discarded (the (recomputeFloor ?r))) = (80, 0, 1, 30)"
    by code_simp
  from ne have run: "recomputeFloor ?r = Some (the (recomputeFloor ?r))" by simp
  from pool have nolt: "\<forall>p \<in> set (partials (fst (recompute_init ?r))). plank_cut_end p \<noteq> ''<''"
    by (simp only: list_all_iff)
  from waste_material_balance [OF run nolt] have
    "of_nat (planksNeeded (the (recomputeFloor ?r))) * PLANK_LENGTH (the (recomputeFloor ?r))
           + pool_length (partials (fst (recompute_init ?r)))
         = laid_length (the (recomputeFloor ?r)) + pool_length (partials (the (recomputeFloor ?r)))
           + CUT_THICKNESS (the (recomputeFloor ?r)) * of_nat (cuts (the (recomputeFloor ?r)))
           + discarded (the (recomputeFloor ?r))"
    by (elim conjE)
  with ne pool vals show ?thesis by (simp only: Let_def simp_thms)
qed

text \<open>
  In that layout the kerf loss is 0 and the one offcut, of 30, is discarded, while the
  waste is \<open>60 - 80 = - 20\<close>: the plank of 50 taken from the pool fills the column without
  being counted in the planks needed, and the waste is lowered by its length.
\<close>

theorem waste_used_partial_counterexample:
  "map_option (\<lambda>r'. (map col_height (columns r'),
        map (map (\<lambda>p. (plank_length p, plank_cut_end p)) \<circ> col_planks) (columns r'),
        planksNeeded r', cuts r', CUT_THICKNESS r' * of_nat (cuts r'), discarded r',
        waste r'))
     (recomputeFloor (measure_room pool_room))
   = Some ([80], [[(50, ''>''), (30, ''<'')]], 1, 1, 0, 30, - 20)"
  by code_simp

section \<open>Shuffling the columns\<close>

lemma map_update_same:
  "g x = g (xs ! i) \<Longrightarrow> map g (xs[i := x]) = map g xs"
proof (cases "i < length xs")
  case True
  assume "g x = g (xs ! i)"
  with True have "(map g xs)[i := g x] = map g xs"
    by (metis list_update_id nth_map)
  then show ?thesis by (simp add: map_update)
next
  case False
  then show ?thesis by (simp add: list_update_beyond)
qed

lemma swap_left_map:
  assumes "\<And>c x. g (c\<lparr>col_left := x\<rparr>) = g c" and "\<And>c. g (lineUpPlanks c) = g c"
  shows "map g (swap_left f t cols) = map g cols"
  unfolding swap_left_def Let_def
  by (simp add: map_update_same assms)

lemma swap_rounds_map:
  assumes "\<And>c x. g (c\<lparr>col_left := x\<rparr>) = g c" and "\<And>c. g (lineUpPlanks c) = g c"
    and "swap_rounds bin rounds cols ds = Some (cols', ds')"
  shows "map g cols' = map g cols"
  using assms(3)
proof (induction rounds arbitrary: cols ds)
  case Nil
  then show ?case by simp
next
  case (Cons i rounds)
  then show ?case
    by (auto simp: Let_def swap_left_map [of g, OF assms(1,2)] split: option.splits if_splits)
qed

lemma shuffle_bins_map:
  assumes "\<And>c x. g (c\<lparr>col_left := x\<rparr>) = g c" and "\<And>c. g (lineUpPlanks c) = g c"
    and "shuffle_bins bins cols ds = Some (cols', ds')"
  shows "map g cols' = map g cols"
  using assms(3)
proof (induction bins arbitrary: cols ds)
  case Nil
  then show ?case by simp
next
  case (Cons e bins)
  obtain k bin where e: "e = (k, bin)" by (cases e)
  show ?case
  proof (cases "length bin > 1")
    case False
    with Cons e show ?thesis by simp
  next
    case True
    with Cons.prems e obtain cols1 ds1 where
      r: "swap_rounds bin [0..<2 * length bin] cols ds = Some (cols1, ds1)"
      and rest: "shuffle_bins bins cols1 ds1 = Some (cols', ds')"
      by (auto split: option.splits)
    from Cons.IH [OF rest] swap_rounds_map [of g, OF assms(1,2) r] show ?thesis by simp
  qed
qed

lemma shuffle_order_mset:
  assumes "\<And>c x. g (c\<lparr>col_left := x\<rparr>) = g c" and "\<And>c. g (lineUpPlanks c) = g c"
    and "shuffle_order ds r = Some (cs, ds')"
  shows "mset (map g cs) = mset (map g (columns r))"
proof -
  from assms(3) obtain cols where
    b: "shuffle_bins (keys_order (collect_bins r)) (columns r) ds = Some (cols, ds')"
    and cs: "cs = sort_key col_left cols"
    by (auto simp: shuffle_order_def split: option.splits)
  from shuffle_bins_map [of g, OF assms(1,2) b] have "map g cols = map g (columns r)" .
  then have "mset (map g cols) = mset (map g (columns r))" by simp
  then show ?thesis by (simp add: cs)
qed

lemma shuffle_order_sorted:
  "shuffle_order ds r = Some (cs, ds') \<Longrightarrow> sorted (map col_left cs)"
  by (auto simp: shuffle_order_def split: option.splits)

lemma renumber_planks_length:
  "renumber_planks ps st = (ps', st') \<Longrightarrow> length ps' = length ps"
proof (induction ps arbitrary: st ps')
  case Nil
  then show ?case by simp
next
  case (Cons p ps)
  obtain m n where st: "st = (m, n)" by (cases st)
  from Cons.prems show ?case unfolding st
    by (auto split: option.splits prod.splits dest: Cons.IH)
qed

lemma renumber_columns_frame:
  "map col_left (renumber_columns cs st) = map col_left cs
   \<and> map col_height (renumber_columns cs st) = map col_height cs
   \<and> map (length \<circ> col_planks) (renumber_columns cs st) = map (length \<circ> col_planks) cs"
proof (induction cs arbitrary: st)
  case Nil
  show ?case by simp
next
  case (Cons c cs)
  obtain ps st' where r: "renumber_planks (col_planks c) st = (ps, st')"
    by (cases "renumber_planks (col_planks c) st")
  from renumber_planks_length [OF r] Cons.IH [of st'] r show ?case
    by (simp add: col_height_def)
qed

lemma encounter_level_append:
  "encounter_level k xs = Some k' \<Longrightarrow> encounter_level k (xs @ ys) = encounter_level k' ys"
  by (induction xs arbitrary: k) (auto split: if_splits)

lemma remap_inv_fresh:
  assumes "remap_inv m n" and "m k = None"
  shows "remap_inv (m(k \<mapsto> n)) (Suc n)"
proof -
  from assms have inj: "inj_on m (dom m)" and ran: "ran m = {1..<n}" and n: "1 \<le> n"
    by (simp_all add: remap_inv_def)
  have "n \<notin> ran m" using ran by simp
  then have new: "\<forall>k'. m k' \<noteq> Some n" by (auto simp: ran_def)
  have "inj_on (m(k \<mapsto> n)) (dom (m(k \<mapsto> n)))"
  proof (rule inj_onI)
    fix a b
    assume "a \<in> dom (m(k \<mapsto> n))" "b \<in> dom (m(k \<mapsto> n))" "(m(k \<mapsto> n)) a = (m(k \<mapsto> n)) b"
    then show "a = b"
      using inj new by (auto simp: inj_on_def dom_def split: if_splits)
  qed
  moreover have "ran (m(k \<mapsto> n)) = {1..<Suc n}"
    using assms(2) ran n by (auto simp: ran_map_upd)
  ultimately show ?thesis by (simp add: remap_inv_def)
qed

lemma remap_inv_known:
  assumes "remap_inv m n" and "m k = Some v"
  shows "1 \<le> v \<and> v < n"
proof -
  from assms(2) have "v \<in> ran m" by (auto simp: ran_def)
  with assms(1) show ?thesis by (simp add: remap_inv_def)
qed

lemma renumber_planks_spec:
  assumes "remap_inv m n" and "renumber_planks ps (m, n) = (ps', m', n')"
  shows "remap_inv m' n' \<and> m \<subseteq>\<^sub>m m' \<and> dom m' = dom m \<union> plank_id ` set ps
       \<and> map plank_id ps' = map (\<lambda>p. the (m' (plank_id p))) ps
       \<and> encounter_level (n - 1) (map plank_id ps') = Some (n' - 1)"
  using assms
proof (induction ps arbitrary: m n ps')
  case Nil
  then show ?case by simp
next
  case (Cons p ps)
  show ?case
  proof (cases "m (plank_id p)")
    case None
    let ?m1 = "m(plank_id p \<mapsto> n)"
    from Cons.prems(2) None obtain qs where
      run: "renumber_planks ps (?m1, Suc n) = (qs, m', n')" and ps': "ps' = p\<lparr>plank_id := n\<rparr> # qs"
      by (auto split: prod.splits)
    from Cons.IH [OF remap_inv_fresh [OF Cons.prems(1) None] run]
    have IH: "remap_inv m' n'" "?m1 \<subseteq>\<^sub>m m'" "dom m' = dom ?m1 \<union> plank_id ` set ps"
      "map plank_id qs = map (\<lambda>p. the (m' (plank_id p))) ps"
      "encounter_level (Suc n - 1) (map plank_id qs) = Some (n' - 1)"
      by blast+
    from IH(2) have head: "m' (plank_id p) = Some n"
      by (auto simp: map_le_def dom_def split: if_splits)
    have sub: "m \<subseteq>\<^sub>m m'"
      using IH(2) None by (auto simp: map_le_def dom_def split: if_splits)
    from Cons.prems(1) have "1 \<le> n" by (simp add: remap_inv_def)
    then have "Suc (n - 1) = n" by simp
    with IH(5) have "encounter_level (n - 1) (n # map plank_id qs) = Some (n' - 1)" by simp
    with IH head sub ps' show ?thesis by auto
  next
    case (Some v)
    from Cons.prems(2) Some obtain qs where
      run: "renumber_planks ps (m, n) = (qs, m', n')" and ps': "ps' = p\<lparr>plank_id := v\<rparr> # qs"
      by (auto split: prod.splits)
    from Cons.IH [OF Cons.prems(1) run]
    have IH: "remap_inv m' n'" "m \<subseteq>\<^sub>m m'" "dom m' = dom m \<union> plank_id ` set ps"
      "map plank_id qs = map (\<lambda>p. the (m' (plank_id p))) ps"
      "encounter_level (n - 1) (map plank_id qs) = Some (n' - 1)"
      by blast+
    from IH(2) Some have head: "m' (plank_id p) = Some v"
      by (auto simp: map_le_def dom_def)
    from remap_inv_known [OF Cons.prems(1) Some] have v: "1 \<le> v" "v \<le> n - 1" "v \<noteq> Suc (n - 1)"
      by auto
    with IH(5) have "encounter_level (n - 1) (v # map plank_id qs) = Some (n' - 1)" by simp
    moreover from Some have "plank_id p \<in> dom m" by auto
    ultimately show ?thesis using IH head ps' by auto
  qed
qed

lemma renumber_columns_spec:
  assumes "remap_inv m n"
  shows "\<exists>m' n'. remap_inv m' n' \<and> m \<subseteq>\<^sub>m m'
          \<and> dom m' = dom m \<union> set (column_ids cs)
          \<and> column_ids (renumber_columns cs (m, n)) = map (\<lambda>i. the (m' i)) (column_ids cs)
          \<and> encounter_level (n - 1) (column_ids (renumber_columns cs (m, n))) = Some (n' - 1)"
  using assms
proof (induction cs arbitrary: m n)
  case Nil
  then show ?case by (intro exI [of _ m] exI [of _ n]) (simp add: column_ids_def)
next
  case (Cons c cs)
  obtain ps m1 n1 where r: "renumber_planks (col_planks c) (m, n) = (ps, m1, n1)"
    by (cases "renumber_planks (col_planks c) (m, n)") auto
  from renumber_planks_spec [OF Cons.prems r]
  have A: "remap_inv m1 n1" "m \<subseteq>\<^sub>m m1" "dom m1 = dom m \<union> plank_id ` set (col_planks c)"
    "map plank_id ps = map (\<lambda>p. the (m1 (plank_id p))) (col_planks c)"
    "encounter_level (n - 1) (map plank_id ps) = Some (n1 - 1)"
    by blast+
  from Cons.IH [OF A(1)] obtain m' n' where
    B: "remap_inv m' n'" "m1 \<subseteq>\<^sub>m m'" "dom m' = dom m1 \<union> set (column_ids cs)"
      "column_ids (renumber_columns cs (m1, n1)) = map (\<lambda>i. the (m' i)) (column_ids cs)"
      "encounter_level (n1 - 1) (column_ids (renumber_columns cs (m1, n1))) = Some (n' - 1)"
    by blast
  have same: "the (m1 (plank_id p)) = the (m' (plank_id p))" if "p \<in> set (col_planks c)" for p
  proof -
    from that A(3) have "plank_id p \<in> dom m1" by auto
    with B(2) show ?thesis by (auto simp: map_le_def)
  qed
  have ids: "column_ids (renumber_columns (c # cs) (m, n))
      = map plank_id ps @ column_ids (renumber_columns cs (m1, n1))"
    by (simp add: r column_ids_def)
  have old: "column_ids (c # cs) = map plank_id (col_planks c) @ column_ids cs"
    by (simp add: column_ids_def)
  have first: "map plank_id ps = map (\<lambda>i. the (m' i)) (map plank_id (col_planks c))"
    using A(4) same by simp
  have "column_ids (renumber_columns (c # cs) (m, n)) = map (\<lambda>i. the (m' i)) (column_ids (c # cs))"
    by (simp only: ids old first B(4) map_append)
  moreover have "encounter_level (n - 1) (column_ids (renumber_columns (c # cs) (m, n))) = Some (n' - 1)"
    by (simp only: ids encounter_level_append [OF A(5)] B(5))
  moreover have "m \<subseteq>\<^sub>m m'" using A(2) B(2) by (rule map_le_trans)
  moreover have "dom m' = dom m \<union> set (column_ids (c # cs))"
    using A(3) B(3) by (auto simp: column_ids_def)
  ultimately show ?case using B(1) by blast
qed

lemma renumber_columns_ids:
  fixes cs :: "column list"
  defines "old \<equiv> column_ids cs" and "new \<equiv> column_ids (renumber_columns cs (Map.empty, 1))"
  shows "length new = length old \<and> set new = {1..card (set old)}
       \<and> encounter_level 0 new = Some (card (set old))
       \<and> (\<forall>i < length old. \<forall>j < length old. new ! i = new ! j \<longleftrightarrow> old ! i = old ! j)"
proof -
  have "remap_inv Map.empty 1" by (simp add: remap_inv_def)
  from renumber_columns_spec [OF this, of cs] obtain m' n' where
    inv: "remap_inv m' n'" and dom: "dom m' = set old"
    and new: "new = map (\<lambda>i. the (m' i)) old"
    and lev: "encounter_level 0 new = Some (n' - 1)"
    by (auto simp: old_def new_def)
  from inv have inj: "inj_on m' (dom m')" and ran: "ran m' = {1..<n'}" and n': "1 \<le> n'"
    by (simp_all add: remap_inv_def)
  have inj': "inj_on (\<lambda>i. the (m' i)) (set old)"
  proof (rule inj_onI)
    fix a b assume "a \<in> set old" "b \<in> set old" "the (m' a) = the (m' b)"
    with dom have "m' a = m' b" by (metis domD option.sel)
    with inj dom \<open>a \<in> set old\<close> \<open>b \<in> set old\<close> show "a = b" by (auto simp: inj_on_def)
  qed
  have img: "(\<lambda>i. the (m' i)) ` set old = ran m'"
  proof -
    have "(\<lambda>i. the (m' i)) ` dom m' = ran m'"
      by (auto simp: ran_def dom_def image_iff) force
    with dom show ?thesis by simp
  qed
  have "card (set old) = card (ran m')" using card_image [OF inj'] img by simp
  with ran have card: "card (set old) = n' - 1" by simp
  have "set new = {1..<n'}" using img ran by (simp add: new)
  also have "\<dots> = {1..card (set old)}" using card n' by auto
  finally have set_new: "set new = {1..card (set old)}" .
  have share: "new ! i = new ! j \<longleftrightarrow> old ! i = old ! j" if "i < length old" "j < length old" for i j
    using that inj' by (auto simp: new inj_on_def)
  from set_new lev card share show ?thesis by (simp add: new)
qed

lemma pick_to_draw:
  assumes "2 \<le> n" and "from < n"
  shows "\<exists>x to. 0 \<le> x \<and> x < 1 \<and> 0 \<le> to \<and> to < int n
           \<and> (\<forall>ds. pick_to n from (x # ds) = Some (to, ds))"
proof (cases "from = 0")
  case False
  then show ?thesis using assms
    by (intro exI [of _ 0] exI [of _ 0]) simp
next
  case True
  define t where "t = \<lfloor>(of_nat n :: rat) / 2\<rfloor>"
  have "(1 :: rat) \<le> of_nat n / 2" using assms(1) by simp
  then have lo: "1 \<le> t" unfolding t_def by (simp only: le_floor_iff of_int_1)
  have "(of_nat n :: rat) / 2 < of_nat n" using assms(1) by simp
  then have hi: "t < int n" unfolding t_def by (simp only: floor_less_iff of_int_of_nat_eq)
  have "pick_to n 0 ((1/2) # ds) = Some (t, ds)" for ds
    using lo by (simp add: Let_def t_def [symmetric])
  with lo hi True show ?thesis
    by (intro exI [of _ "1/2"] exI [of _ t]) simp
qed

lemma swap_rounds_draws:
  assumes "2 \<le> length bin"
  shows "\<exists>ds1. (\<forall>x \<in> set ds1. 0 \<le> x \<and> x < 1)
           \<and> (\<forall>cols ds2. \<exists>cols'. swap_rounds bin rounds cols (ds1 @ ds2) = Some (cols', ds2))"
proof (induction rounds)
  case Nil
  show ?case by (intro exI [of _ "[]"]) simp
next
  case (Cons i rounds)
  then obtain ds1 where ds1: "\<forall>x \<in> set ds1. 0 \<le> x \<and> x < 1"
    and run: "\<And>cols ds2. \<exists>cols'. swap_rounds bin rounds cols (ds1 @ ds2) = Some (cols', ds2)"
    by blast
  have "0 < length bin" using assms by linarith
  then have "i mod length bin < length bin" by (rule mod_less_divisor)
  from pick_to_draw [OF assms this] obtain x to where
    x: "0 \<le> x" "x < 1" and to: "0 \<le> to" "to < int (length bin)"
    and pick: "\<And>ds. pick_to (length bin) (i mod length bin) (x # ds) = Some (to, ds)"
    by blast
  show ?case
  proof (intro exI [of _ "x # ds1"] conjI allI)
    show "\<forall>y \<in> set (x # ds1). 0 \<le> y \<and> y < 1" using x ds1 by simp
  next
    fix cols ds2
    from run [of "swap_left (bin ! (i mod length bin)) (bin ! nat to) cols" ds2]
    show "\<exists>cols'. swap_rounds bin (i # rounds) cols ((x # ds1) @ ds2) = Some (cols', ds2)"
      using pick [of "ds1 @ ds2"] to by (simp add: Let_def)
  qed
qed

lemma shuffle_bins_draws:
  "\<exists>ds1. (\<forall>x \<in> set ds1. 0 \<le> x \<and> x < 1)
     \<and> (\<forall>cols ds2. \<exists>cols'. shuffle_bins bins cols (ds1 @ ds2) = Some (cols', ds2))"
proof (induction bins)
  case Nil
  show ?case by (intro exI [of _ "[]"]) simp
next
  case (Cons e bins)
  then obtain ds1 where ds1: "\<forall>x \<in> set ds1. 0 \<le> x \<and> x < 1"
    and run: "\<And>cols ds2. \<exists>cols'. shuffle_bins bins cols (ds1 @ ds2) = Some (cols', ds2)"
    by blast
  obtain k bin where e: "e = (k, bin)" by (cases e)
  show ?case
  proof (cases "length bin > 1")
    case False
    with run ds1 e show ?thesis by (intro exI [of _ ds1]) simp
  next
    case True
    then have "2 \<le> length bin" by simp
    from swap_rounds_draws [OF this, of "[0..<2 * length bin]"] obtain ds0 where
      ds0: "\<forall>x \<in> set ds0. 0 \<le> x \<and> x < 1"
      and first: "\<And>cols ds2. \<exists>cols'.
          swap_rounds bin [0..<2 * length bin] cols (ds0 @ ds2) = Some (cols', ds2)"
      by blast
    show ?thesis
    proof (intro exI [of _ "ds0 @ ds1"] conjI allI)
      show "\<forall>x \<in> set (ds0 @ ds1). 0 \<le> x \<and> x < 1" using ds0 ds1 by auto
    next
      fix cols ds2
      from first [of cols "ds1 @ ds2"] obtain cols1 where
        a: "swap_rounds bin [0..<2 * length bin] cols (ds0 @ ds1 @ ds2) = Some (cols1, ds1 @ ds2)"
        by blast
      from run [of cols1 ds2] obtain cols' where
        b: "shuffle_bins bins cols1 (ds1 @ ds2) = Some (cols', ds2)" by blast
      from a b True e
      show "\<exists>cols'. shuffle_bins (e # bins) cols ((ds0 @ ds1) @ ds2) = Some (cols', ds2)"
        by simp
    qed
  qed
qed

lemma shuffle_returns:
  "\<exists>ds. (\<forall>x \<in> set ds. 0 \<le> x \<and> x < 1) \<and> shuffle ds r \<noteq> None"
proof -
  from shuffle_bins_draws [of "keys_order (collect_bins r)"] obtain ds where
    ds: "\<forall>x \<in> set ds. 0 \<le> x \<and> x < 1"
    and run: "\<And>cols ds2. \<exists>cols'.
        shuffle_bins (keys_order (collect_bins r)) cols (ds @ ds2) = Some (cols', ds2)"
    by blast
  from run [of "columns r" "[]"] have "shuffle ds r \<noteq> None"
    by (auto simp: shuffle_def shuffle_order_def)
  with ds show ?thesis by blast
qed

lemma shuffle_counts:
  assumes "shuffle ds r = Some (r', ds')"
  shows "plank_count (columns r') = plank_count (columns r)
       \<and> mset (map col_height (columns r')) = mset (map col_height (columns r))"
proof -
  from assms obtain cs where ord: "shuffle_order ds r = Some (cs, ds')"
    and r': "columns r' = renumber_columns cs (Map.empty, 1)"
    by (auto simp: shuffle_def split: option.splits)
  note fr = renumber_columns_frame [of cs "(Map.empty, 1)"]
  have h: "mset (map col_height cs) = mset (map col_height (columns r))"
    by (rule shuffle_order_mset [OF _ _ ord]) (simp_all add: col_height_def lineUpPlanks_def)
  have "mset (map (length \<circ> col_planks) cs) = mset (map (length \<circ> col_planks) (columns r))"
    by (rule shuffle_order_mset [OF _ _ ord]) (simp_all add: lineUpPlanks_def)
  then have "sum_mset (mset (map (length \<circ> col_planks) cs))
           = sum_mset (mset (map (length \<circ> col_planks) (columns r)))"
    by simp
  then have "plank_count cs = plank_count (columns r)"
    by (simp only: plank_count_def sum_mset_sum_list)
  with h fr r' show ?thesis by (simp add: plank_count_def)
qed

text \<open>
  The columns under \<^verbatim>\<open>shuffle\<close>. For every room there are draws of \<^verbatim>\<open>Math.random()\<close> with which \<^verbatim>\<open>shuffle\<close>
  returns. Whenever \<^verbatim>\<open>shuffle\<close> returns, whatever the draws were: the number of planks
  in the columns and the multiset of the column heights are those of the column list
  it was given; the columns are in ascending order of \<^verbatim>\<open>left\<close>; and the pool is not
  touched. Let \<open>cs\<close> be the columns after the exchanges and the sort, before the
  renumbering: they are the given columns, rearranged, each with its height and its
  planks' ids and tops. Reading the planks column by column from the left, and within a
  column in the stored order (top to bottom as \<^verbatim>\<open>recomputeFloor\<close> stores them), the new
  ids are exactly \<open>1..N\<close> for the number \<open>N\<close> of distinct old ids, each id is the next
  unused number when it is first met, and two planks have the same new id exactly when
  they had the same old id. A second \<^verbatim>\<open>shuffle\<close> in a row again leaves the plank count
  and the multiset of heights as they were at the start.
\<close>

lemma shuffle_columns_renumbered:
  "(\<exists>ds. (\<forall>x \<in> set ds. 0 \<le> x \<and> x < 1) \<and> shuffle ds r \<noteq> None)
   \<and> (\<forall>ds r' ds'. shuffle ds r = Some (r', ds') \<longrightarrow>
        plank_count (columns r') = plank_count (columns r)
      \<and> mset (map col_height (columns r')) = mset (map col_height (columns r))
      \<and> sorted (map col_left (columns r'))
      \<and> partials r' = partials r
      \<and> (\<exists>cs. shuffle_order ds r = Some (cs, ds')
            \<and> mset (map (\<lambda>c. (col_height c, map (\<lambda>p. (plank_id p, plank_top p)) (col_planks c))) cs)
              = mset (map (\<lambda>c. (col_height c, map (\<lambda>p. (plank_id p, plank_top p)) (col_planks c)))
                       (columns r))
            \<and> map (length \<circ> col_planks) (columns r') = map (length \<circ> col_planks) cs
            \<and> length (column_ids (columns r')) = length (column_ids cs)
            \<and> set (column_ids (columns r')) = {1..card (set (column_ids cs))}
            \<and> encounter_level 0 (column_ids (columns r')) = Some (card (set (column_ids cs)))
            \<and> (\<forall>i < length (column_ids cs). \<forall>j < length (column_ids cs).
                  column_ids (columns r') ! i = column_ids (columns r') ! j
                  \<longleftrightarrow> column_ids cs ! i = column_ids cs ! j))
      \<and> (\<forall>ds'' r''. shuffle ds' r' = Some (r'', ds'') \<longrightarrow>
            plank_count (columns r'') = plank_count (columns r)
          \<and> mset (map col_height (columns r'')) = mset (map col_height (columns r))))"
proof (intro conjI allI impI)
  show "\<exists>ds. (\<forall>x \<in> set ds. 0 \<le> x \<and> x < 1) \<and> shuffle ds r \<noteq> None"
    by (rule shuffle_returns)
next
  fix ds r' ds'
  assume run: "shuffle ds r = Some (r', ds')"
  then obtain cs where ord: "shuffle_order ds r = Some (cs, ds')"
    and r': "r' = r\<lparr>columns := renumber_columns cs (Map.empty, 1)\<rparr>"
    by (auto simp: shuffle_def split: option.splits)
  note fr = renumber_columns_frame [of cs "(Map.empty, 1)"]
  note counts = shuffle_counts [OF run]
  show "plank_count (columns r') = plank_count (columns r)" using counts by simp
  show "mset (map col_height (columns r')) = mset (map col_height (columns r))"
    using counts by simp
  show "sorted (map col_left (columns r'))"
    using shuffle_order_sorted [OF ord] fr by (simp add: r')
  show "partials r' = partials r" by (simp add: r')
  have shape: "mset (map (\<lambda>c. (col_height c, map (\<lambda>p. (plank_id p, plank_top p)) (col_planks c))) cs)
              = mset (map (\<lambda>c. (col_height c, map (\<lambda>p. (plank_id p, plank_top p)) (col_planks c)))
                       (columns r))"
    by (rule shuffle_order_mset [OF _ _ ord])
      (simp_all add: col_height_def lineUpPlanks_def comp_def)
  from renumber_columns_ids [of cs] fr shape ord
  show "\<exists>cs. shuffle_order ds r = Some (cs, ds')
            \<and> mset (map (\<lambda>c. (col_height c, map (\<lambda>p. (plank_id p, plank_top p)) (col_planks c))) cs)
              = mset (map (\<lambda>c. (col_height c, map (\<lambda>p. (plank_id p, plank_top p)) (col_planks c)))
                       (columns r))
            \<and> map (length \<circ> col_planks) (columns r') = map (length \<circ> col_planks) cs
            \<and> length (column_ids (columns r')) = length (column_ids cs)
            \<and> set (column_ids (columns r')) = {1..card (set (column_ids cs))}
            \<and> encounter_level 0 (column_ids (columns r')) = Some (card (set (column_ids cs)))
            \<and> (\<forall>i < length (column_ids cs). \<forall>j < length (column_ids cs).
                  column_ids (columns r') ! i = column_ids (columns r') ! j
                  \<longleftrightarrow> column_ids cs ! i = column_ids cs ! j)"
    by (intro exI [of _ cs]) (simp add: r')
  fix ds'' r''
  assume "shuffle ds' r' = Some (r'', ds'')"
  from shuffle_counts [OF this] counts
  show "plank_count (columns r'') = plank_count (columns r)"
    and "mset (map col_height (columns r'')) = mset (map col_height (columns r))"
    by simp_all
qed

text \<open>
  The three columns of \<open>three_columns\<close> have the same height and form one bin. With the
  draws below (the first one is rejected, since it gives the index of the column
  itself) the columns end in another order; the ids 1, 2, 2, 3, 4, 6, 7 become
  1, 2, 3, 4, 5, 6, 1, and the two pieces with the old id 2 share the new id 1.
\<close>

lemma shuffle_columns_renumbered_example:
  "list_all (\<lambda>x. 0 \<le> x \<and> x < 1) [0, 1/2, 0, 0, 9/10, 0, 0 :: rat]
   \<and> shuffle [0, 1/2, 0, 0, 9/10, 0, 0] three_columns \<noteq> None
   \<and> column_ids (columns three_columns) = [1, 2, 2, 3, 4, 6, 7]
   \<and> map_option (\<lambda>(r', ds'). (map col_left (columns r'), map col_height (columns r'),
          plank_count (columns r') = plank_count (columns three_columns),
          map (map plank_id \<circ> col_planks) (columns r'), ds'))
        (shuffle [0, 1/2, 0, 0, 9/10, 0, 0] three_columns)
     = Some ([0, 10, 20], [100, 100, 100], True, [[1, 2, 3], [4, 5], [6, 1]], [])
   \<and> plank_count (columns (fst (the (shuffle [0, 1/2, 0, 0, 9/10, 0, 0] three_columns))))
     = plank_count (columns three_columns)"
proof -
  let ?res = "the (shuffle [0, 1/2, 0, 0, 9/10, 0, 0] three_columns)"
  have draws: "list_all (\<lambda>x. 0 \<le> x \<and> x < 1) [0, 1/2, 0, 0, 9/10, 0, 0 :: rat]" by simp
  have ne: "shuffle [0, 1/2, 0, 0, 9/10, 0, 0] three_columns \<noteq> None" by code_simp
  have old: "column_ids (columns three_columns) = [1, 2, 2, 3, 4, 6, 7]" by code_simp
  have res: "map_option (\<lambda>(r', ds'). (map col_left (columns r'), map col_height (columns r'),
          plank_count (columns r') = plank_count (columns three_columns),
          map (map plank_id \<circ> col_planks) (columns r'), ds'))
        (shuffle [0, 1/2, 0, 0, 9/10, 0, 0] three_columns)
     = Some ([0, 10, 20], [100, 100, 100], True, [[1, 2, 3], [4, 5], [6, 1]], [])"
    by code_simp
  have run: "shuffle [0, 1/2, 0, 0, 9/10, 0, 0] three_columns = Some (fst ?res, snd ?res)"
    by (simp only: prod.collapse option.collapse [OF ne])
  from shuffle_columns_renumbered [of three_columns, THEN conjunct2, rule_format, OF run]
  have "plank_count (columns (fst ?res)) = plank_count (columns three_columns)"
    by (rule conjunct1)
  with draws ne old res show ?thesis by (simp only: simp_thms)
qed

text \<open>
  C7, the shared id of the two pieces of a cut plank. The layout \<open>three_columns\<close> has two
  cut planks whose leftover is still in the pool: the plank with id 4, whose bottom-cut
  piece (uid 4) ends the second column and whose top-cut piece (uid 5) is banked, and the
  plank with id 7 (uids 8 and 9). \<^verbatim>\<open>shuffle\<close> renumbers the planks of \<^verbatim>\<open>this.columns\<close> only
  and never visits \<^verbatim>\<open>this.partials\<close>. With the draws below, the piece in the column of the
  plank 4 gets the id 3 and that of the plank 7 gets the id 5, while the banked pieces keep
  the ids 4 and 7: the two pieces of one cut plank no longer carry one id, the banked piece
  4 now carries the id of a whole plank of another column (uid 7), and the banked piece 7
  lies outside the ids \<open>1..6\<close> of the renumbered columns. Each entry below is the uid, the
  id and the cut end of a plank.
\<close>

theorem shuffle_stale_pool_id:
  "map (map (\<lambda>p. (plank_uid p, plank_id p, plank_cut_end p)) \<circ> col_planks) (columns three_columns)
     = [[(0, 1, ''''), (1, 2, ''<'')],
        [(2, 2, ''>''), (3, 3, ''''), (4, 4, ''<'')],
        [(7, 6, ''''), (8, 7, ''<'')]]
   \<and> map (\<lambda>p. (plank_uid p, plank_id p, plank_cut_end p)) (partials three_columns)
     = [(5, 4, ''>''), (9, 7, ''>'')]
   \<and> map_option (\<lambda>(r', ds').
          (map (map (\<lambda>p. (plank_uid p, plank_id p, plank_cut_end p)) \<circ> col_planks) (columns r'),
           map (\<lambda>p. (plank_uid p, plank_id p, plank_cut_end p)) (partials r')))
        (shuffle [0, 1/2, 0, 0, 9/10, 0, 0] three_columns)
     = Some ([[(2, 1, ''>''), (3, 2, ''''), (4, 3, ''<'')],
              [(7, 4, ''''), (8, 5, ''<'')],
              [(0, 6, ''''), (1, 1, ''<'')]],
             [(5, 4, ''>''), (9, 7, ''>'')])"
  by code_simp

end
